theory Spec2Isabelle
  imports Main "HOL-Library.Word"
begin

unbundle bit_operations_syntax

section \<open>Data model (ESP_CAN.h, the error-counting version of the class)\<close>

text \<open>
  The enumerations of the header. Bus levels are booleans throughout, as in the source:
  \<open>True\<close> is HIGH (recessive), \<open>False\<close> is LOW (dominant).
\<close>

datatype CAN_State = CAN_STATE_ERROR_ACTIVE | CAN_STATE_ERROR_PASSIVE | CAN_STATE_BUS_OFF

datatype CAN_Read_Status = CAN_READ_NO_MSG | CAN_READ_MSG_OK | CAN_READ_ERROR

datatype RxState = RX_STATE_IDLE | RX_STATE_SOF | RX_STATE_FRAME

text \<open>
  \<open>struct CAN_Frame\<close>: \<open>uint32_t id\<close>, \<open>uint8_t dlc\<close>, \<open>uint8_t data[8]\<close>. The field \<open>id\<close>
  is \<open>id_f\<close> here, since \<open>id\<close> is the identity function of HOL. The fixed-size
  C arrays of the program are index functions; every index the code uses on them is
  inside the array or is reported as undefined behaviour by the model.
\<close>

record CAN_Frame =
  id_f :: "32 word"
  dlc :: "8 word"
  data :: "nat \<Rightarrow> 8 word"

text \<open>
  The members of \<open>class ESP_CAN\<close>, without the leading underscore of the private ones.
  \<open>tec\<close> and \<open>rec\<close> are \<open>uint8_t\<close>; \<open>int\<close> and \<open>long\<close> are 32 bits wide on the ESP32, as is
  \<open>unsigned long\<close> (\<open>lastSampleTime\<close>). The signed members are integers; where the code
  can overflow one of them the model reports it.
\<close>

record ESP_CAN =
  tec :: "8 word"
  rec :: "8 word"
  state :: CAN_State
  rxPin :: int
  txPin :: int
  bitTimeUs :: int
  lastSampleTime :: "32 word"
  rxState :: RxState
  rxBuffer :: "nat \<Rightarrow> bool"
  rxBitCount :: int
  consecutiveBits :: int
  lastBit :: bool

text \<open>Undefined behaviour of the C++ program, as results of the model.\<close>

datatype ub = DivisionByZero | SignedOverflow | BufferOverrun

section \<open>The four host primitives\<close>

text \<open>
  The GPIO block: the direction and the output latch of every pin, and the trace \<open>wire\<close>
  of what the node put on its TX line during each bit period that has elapsed. Every
  \<open>delayMicroseconds(_bitTimeUs)\<close> of the source is one bit period: it appends the level
  the TX pin presents meanwhile, which is the latch when the pin is an output and
  recessive when it is released to input.
\<close>

datatype PinMode = OUTPUT | INPUT | INPUT_PULLUP

record gpio =
  mode :: "int \<Rightarrow> PinMode"
  level :: "int \<Rightarrow> bool"
  wire :: "bool list"

definition pinMode :: "int \<Rightarrow> PinMode \<Rightarrow> gpio \<Rightarrow> gpio" where
  "pinMode p m g = g\<lparr>mode := (mode g)(p := m)\<rparr>"

definition digitalWrite :: "int \<Rightarrow> bool \<Rightarrow> gpio \<Rightarrow> gpio" where
  "digitalWrite p v g = g\<lparr>level := (level g)(p := v)\<rparr>"

definition delayBitTime :: "int \<Rightarrow> gpio \<Rightarrow> gpio" where
  "delayBitTime tx g =
     g\<lparr>wire := wire g @ [if mode g tx = OUTPUT then level g tx else True]\<rparr>"

text \<open>
  The bus as the transmitter reads it: \<open>rx t\<close> is the level of the RX pin once \<open>t\<close> bit
  periods of the trace have elapsed.
\<close>

definition digitalRead :: "(nat \<Rightarrow> bool) \<Rightarrow> gpio \<Rightarrow> bool" where
  "digitalRead rx g = rx (length (wire g))"

section \<open>Construction and configuration\<close>

text \<open>
  The constructor assigns six members and leaves the others as the storage \<open>raw\<close> of the
  object had them.
\<close>

definition ESP_CAN_ctor :: "int \<Rightarrow> int \<Rightarrow> ESP_CAN \<Rightarrow> ESP_CAN" where
  "ESP_CAN_ctor rx_pin tx_pin raw =
     raw\<lparr>rxPin := rx_pin, txPin := tx_pin, tec := 0, rec := 0,
         state := CAN_STATE_ERROR_ACTIVE, rxState := RX_STATE_IDLE\<rparr>"

text \<open>C++ division of integers truncates towards zero.\<close>

definition cdiv :: "int \<Rightarrow> int \<Rightarrow> int" where
  "cdiv a b = sgn a * sgn b * (\<bar>a\<bar> div \<bar>b\<bar>)"

text \<open>
  \<open>ESP_CAN::begin\<close>, under a name that is not a keyword; \<open>now\<close> is what \<open>micros()\<close>
  returns. Division by a baud rate of 0 is undefined in C++.
\<close>

definition ESP_CAN_begin :: "ESP_CAN \<Rightarrow> int \<Rightarrow> 32 word \<Rightarrow> gpio \<Rightarrow> ub + (ESP_CAN \<times> gpio)" where
  "ESP_CAN_begin n baudrate now g =
     (if baudrate = 0 then Inl DivisionByZero
      else Inr (n\<lparr>bitTimeUs := cdiv 1000000 baudrate, lastSampleTime := now\<rparr>,
                digitalWrite (txPin n) True
                  (pinMode (rxPin n) INPUT_PULLUP (pinMode (txPin n) OUTPUT g))))"

section \<open>Error handling\<close>

text \<open>
  \<open>updateState\<close>, \<open>handleError\<close> and \<open>handleSuccess\<close>. The counters are promoted to \<open>int\<close>
  for the comparisons and truncated to eight bits when they are stored.
\<close>

definition updateState :: "ESP_CAN \<Rightarrow> ESP_CAN" where
  "updateState n =
     (if unat (tec n) > 255 \<or> unat (rec n) > 255 then n\<lparr>state := CAN_STATE_BUS_OFF\<rparr>
      else if unat (tec n) > 127 \<or> unat (rec n) > 127
        then n\<lparr>state := CAN_STATE_ERROR_PASSIVE\<rparr>
      else n\<lparr>state := CAN_STATE_ERROR_ACTIVE\<rparr>)"

definition handleError :: "ESP_CAN \<Rightarrow> bool \<Rightarrow> bool \<Rightarrow> ESP_CAN" where
  "handleError n isTxError isRxError =
     (let n1 = (if isTxError \<and> state n \<noteq> CAN_STATE_BUS_OFF then n\<lparr>tec := tec n + 8\<rparr> else n);
          n2 = (if isRxError \<and> state n1 \<noteq> CAN_STATE_BUS_OFF then n1\<lparr>rec := rec n1 + 1\<rparr> else n1)
      in updateState n2)"

definition handleSuccess :: "ESP_CAN \<Rightarrow> bool \<Rightarrow> bool \<Rightarrow> ESP_CAN" where
  "handleSuccess n isTxSuccess isRxSuccess =
     (let n1 = (if isTxSuccess \<and> tec n > 0 then n\<lparr>tec := tec n - 1\<rparr> else n);
          n2 = (if isRxSuccess \<and> rec n1 > 0 then n1\<lparr>rec := rec n1 - 1\<rparr> else n1)
      in updateState n2)"

section \<open>CRC\<close>

text \<open>
  One round of the loop of \<open>calculateCRC\<close> on the \<open>uint16_t\<close> register: the register is
  shifted without a mask, so bit 15 holds what was shifted out of bit 14.
\<close>

definition crcStep :: "16 word \<Rightarrow> bool \<Rightarrow> 16 word" where
  "crcStep crc_reg b =
     (let do_xor = (drop_bit 14 (crc_reg AND 0x4000) XOR of_bool b \<noteq> 0);
          shifted = push_bit 1 crc_reg
      in if do_xor then shifted XOR 0x4599 else shifted)"

text \<open>\<open>calculateCRC(bits, len)\<close>, on the list of \<open>bits[0] .. bits[len - 1]\<close>.\<close>

definition calculateCRC :: "bool list \<Rightarrow> 16 word" where
  "calculateCRC bits = fold (\<lambda>b crc_reg. crcStep crc_reg b) bits 0 AND 0x7FFF"

section \<open>Sender\<close>

text \<open>
  \<open>sendBit\<close>: the latch is written, one bit period passes, and RX is read only when
  arbitration is checked and the bit was recessive.
\<close>

definition sendBit :: "ESP_CAN \<Rightarrow> (nat \<Rightarrow> bool) \<Rightarrow> bool \<Rightarrow> bool \<Rightarrow> gpio \<Rightarrow> bool \<times> gpio" where
  "sendBit n rx b checkArbitration g =
     (if state n = CAN_STATE_BUS_OFF then (False, g)
      else
        let g1 = delayBitTime (txPin n) (digitalWrite (txPin n) b g) in
        if checkArbitration \<and> b \<and> digitalRead rx g1 = False then (False, g1)
        else (True, g1))"

text \<open>
  The local array \<open>bitSequence\<close> that \<open>sendFrame\<close> fills: identifier, RTR, IDE, r0, the
  clamped DLC and the data bytes, each most significant bit first. At most 82 of its
  128 cells are written.
\<close>

definition bitSequence :: "CAN_Frame \<Rightarrow> bool list" where
  "bitSequence frame =
     (let d = (if dlc frame > 8 then 8 else dlc frame) in
      map (\<lambda>i. drop_bit i (id_f frame) AND 1 \<noteq> 0) (rev [0..<11]) @
      [False, False, False] @
      map (\<lambda>i. drop_bit i d AND 1 \<noteq> 0) (rev [0..<4]) @
      concat (map (\<lambda>i. map (\<lambda>j. drop_bit j (data frame i) AND 1 \<noteq> 0) (rev [0..<8]))
                [0..<unat d]))"

definition crcBits :: "16 word \<Rightarrow> bool list" where
  "crcBits crc = map (\<lambda>i. drop_bit i crc AND 1 \<noteq> 0) (rev [0..<15])"

text \<open>
  The two stuffing loops of \<open>sendFrame\<close> have the same body and differ in the flag
  passed to \<open>sendBit\<close>. The locals \<open>consecutiveBits\<close> and \<open>lastBit\<close> of the source are
  \<open>consecutive\<close> and \<open>lastb\<close>. \<open>None\<close> is the early exit of the loop, after which the
  caller runs \<open>handleError(true, false)\<close> and returns false; \<open>Some\<close> carries the run
  counter and the last bit on to the next loop.
\<close>

fun sendStuffed ::
  "ESP_CAN \<Rightarrow> (nat \<Rightarrow> bool) \<Rightarrow> bool \<Rightarrow> bool list \<Rightarrow> int \<Rightarrow> bool \<Rightarrow> gpio
     \<Rightarrow> (int \<times> bool) option \<times> gpio" where
  "sendStuffed n rx chk [] consecutive lastb g = (Some (consecutive, lastb), g)"
| "sendStuffed n rx chk (b # bs) consecutive lastb g =
     (let c1 = (if b = lastb then consecutive + 1 else 1);
          r1 = sendBit n rx b chk g
      in if fst r1 = False then (None, snd r1)
         else if c1 = 5 then
           (let r2 = sendBit n rx (b = False) chk (snd r1)
            in if fst r2 = False then (None, snd r2)
               else sendStuffed n rx chk bs 0 (b = False) (snd r2))
         else sendStuffed n rx chk bs c1 b (snd r1))"

text \<open>The block ACK Slot of \<open>sendFrame\<close>: whether an ACK was read, and the pins after it.\<close>

definition ackSlot :: "ESP_CAN \<Rightarrow> (nat \<Rightarrow> bool) \<Rightarrow> gpio \<Rightarrow> bool \<times> gpio" where
  "ackSlot n rx g =
     (let g1 = delayBitTime (txPin n) (pinMode (txPin n) INPUT g);
          ackReceived = (digitalRead rx g1 = False);
          g2 = digitalWrite (txPin n) True (pinMode (txPin n) OUTPUT g1)
      in (ackReceived, g2))"

text \<open>
  \<open>sendFrame\<close>: what it returns, the node after the call and the pins after the call.
  The caller's frame is only read.
\<close>

definition sendFrame :: "ESP_CAN \<Rightarrow> CAN_Frame \<Rightarrow> (nat \<Rightarrow> bool) \<Rightarrow> gpio \<Rightarrow> bool \<times> ESP_CAN \<times> gpio" where
  "sendFrame n frame rx g =
     (if state n = CAN_STATE_BUS_OFF then (False, n, g)
      else
        let bits = bitSequence frame;
            crc = calculateCRC bits;
            sof = sendBit n rx False False g
        in if fst sof = False then (False, handleError n True False, snd sof)
           else
             case sendStuffed n rx True bits 0 False (snd sof) of
               (None, g1) \<Rightarrow> (False, handleError n True False, g1)
             | (Some (c, l), g1) \<Rightarrow>
                 (case sendStuffed n rx False (crcBits crc) c l g1 of
                    (None, g2) \<Rightarrow> (False, handleError n True False, g2)
                  | (Some cl, g2) \<Rightarrow>
                      let del = sendBit n rx True False g2
                      in if fst del = False then (False, handleError n True False, snd del)
                         else
                           let ack = ackSlot n rx (snd del)
                           in if fst ack = False then (False, handleError n True False, snd ack)
                              else
                                let g3 = snd (sendBit n rx True False (snd ack));
                                    g4 = fold (\<lambda>i h. snd (sendBit n rx True False h)) [0..<7] g3
                                in (True, handleSuccess n True False, g4)))"

section \<open>Receiver\<close>

text \<open>
  \<open>x = (x << 1) | _rxBuffer[bitIndex++]\<close>, repeated \<open>k\<close> times from \<open>x = 0\<close>: the value read
  and the index after it. The loops of the decoder read cells 0 to 96 of the 128.
\<close>

definition readBits :: "(nat \<Rightarrow> bool) \<Rightarrow> nat \<Rightarrow> nat \<Rightarrow> 'a::len word \<times> nat" where
  "readBits buf bitIndex k =
     (fold (\<lambda>i x. push_bit 1 x OR of_bool (buf i)) [bitIndex..<bitIndex + k] 0, bitIndex + k)"

text \<open>
  The block DECODE FRAME of \<open>readFrame\<close>: the caller's frame as it is overwritten, the
  received CRC and the final \<open>bitIndex\<close>.
\<close>

definition decodeFrame :: "(nat \<Rightarrow> bool) \<Rightarrow> CAN_Frame \<Rightarrow> CAN_Frame \<times> 16 word \<times> nat" where
  "decodeFrame buf frame =
     (let (ident, i1) = readBits buf 0 11;
          i2 = i1 + 3;
          (d0, i3) = readBits buf i2 4;
          d = (if d0 > 8 then 8 else d0);
          (bytes, i4) =
            fold (\<lambda>i (dat, j). (dat(i := fst (readBits buf j 8)), snd (readBits buf j 8 :: 8 word \<times> nat)))
              [0..<unat d] (data frame, i3);
          (received_crc, i5) = readBits buf i4 15
      in (frame\<lparr>id_f := ident, dlc := d, data := bytes\<rparr>, received_crc, i5))"

text \<open>
  The case \<open>RX_STATE_FRAME\<close> of the switch, which the case \<open>RX_STATE_SOF\<close> falls through
  to. Incrementing \<open>_consecutiveBits\<close> at the largest \<open>int\<close> and writing outside
  \<open>_rxBuffer[128]\<close> are undefined in C++.
\<close>

definition rxFrameBit ::
  "ESP_CAN \<Rightarrow> CAN_Frame \<Rightarrow> bool \<Rightarrow> gpio \<Rightarrow> ub + (CAN_Read_Status \<times> ESP_CAN \<times> CAN_Frame \<times> gpio)" where
  "rxFrameBit n frame currentBit g =
     (if currentBit = lastBit n \<and> consecutiveBits n \<ge> 2147483647 then Inl SignedOverflow
      else
        let c = (if currentBit = lastBit n then consecutiveBits n + 1 else 1) in
        if c = 5 then
          Inr (CAN_READ_NO_MSG, n\<lparr>consecutiveBits := 0, lastBit := (currentBit = False)\<rparr>, frame, g)
        else if rxBitCount n < 0 \<or> rxBitCount n \<ge> 128 then Inl BufferOverrun
        else
          let n1 = n\<lparr>consecutiveBits := c, lastBit := currentBit,
                     rxBuffer := (rxBuffer n)(nat (rxBitCount n) := currentBit),
                     rxBitCount := rxBitCount n + 1\<rparr>
          in if currentBit \<and> c \<ge> 7 then
               let n2 = n1\<lparr>rxState := RX_STATE_IDLE\<rparr>;
                   (frame1, received_crc, bitIndex) = decodeFrame (rxBuffer n2) frame;
                   calculated_crc = calculateCRC (map (rxBuffer n2) [0..<bitIndex - 15])
               in if calculated_crc = received_crc then
                    let g1 = delayBitTime (txPin n2) g;
                        g2 = delayBitTime (txPin n2) (digitalWrite (txPin n2) False g1);
                        g3 = digitalWrite (txPin n2) True g2
                    in Inr (CAN_READ_MSG_OK, handleSuccess n2 False True, frame1, g3)
                  else Inr (CAN_READ_ERROR, handleError n2 False True, frame1, g)
             else Inr (CAN_READ_NO_MSG, n1, frame, g))"

text \<open>
  \<open>readFrame\<close>: \<open>now\<close> is what \<open>micros()\<close> returns and \<open>currentBit\<close> what
  \<open>digitalRead(_rxPin)\<close> returns, if the call gets that far. The comparison of the elapsed
  time with \<open>_bitTimeUs\<close> is made on \<open>unsigned long\<close>.
\<close>

definition readFrame ::
  "ESP_CAN \<Rightarrow> CAN_Frame \<Rightarrow> 32 word \<Rightarrow> bool \<Rightarrow> gpio
     \<Rightarrow> ub + (CAN_Read_Status \<times> ESP_CAN \<times> CAN_Frame \<times> gpio)" where
  "readFrame n frame now currentBit g =
     (if state n = CAN_STATE_BUS_OFF then Inr (CAN_READ_NO_MSG, n, frame, g)
      else if now - lastSampleTime n < word_of_int (bitTimeUs n)
        then Inr (CAN_READ_NO_MSG, n, frame, g)
      else
        let n1 = n\<lparr>lastSampleTime := lastSampleTime n + word_of_int (bitTimeUs n)\<rparr> in
        case rxState n1 of
          RX_STATE_IDLE \<Rightarrow>
            if currentBit = False then
              Inr (CAN_READ_NO_MSG,
                   n1\<lparr>rxState := RX_STATE_SOF, rxBitCount := 0, consecutiveBits := 1,
                      lastBit := False\<rparr>, frame, g)
            else Inr (CAN_READ_NO_MSG, n1, frame, g)
        | RX_STATE_SOF \<Rightarrow> rxFrameBit (n1\<lparr>rxState := RX_STATE_FRAME\<rparr>) frame currentBit g
        | RX_STATE_FRAME \<Rightarrow> rxFrameBit n1 frame currentBit g)"

section \<open>Hosts\<close>

text \<open>
  The loop of the receiver sketch, polling once per bit period: each call is made when
  the next sample is due, and the line shows the next level of \<open>samples\<close>. The result
  lists what the calls returned.
\<close>

fun pollSamples ::
  "ESP_CAN \<Rightarrow> CAN_Frame \<Rightarrow> gpio \<Rightarrow> bool list
     \<Rightarrow> ub + (CAN_Read_Status list \<times> ESP_CAN \<times> CAN_Frame \<times> gpio)" where
  "pollSamples n frame g [] = Inr ([], n, frame, g)"
| "pollSamples n frame g (b # bs) =
     (case readFrame n frame (lastSampleTime n + word_of_int (bitTimeUs n)) b g of
        Inl e \<Rightarrow> Inl e
      | Inr (st, n1, frame1, g1) \<Rightarrow>
          (case pollSamples n1 frame1 g1 bs of
             Inl e \<Rightarrow> Inl e
           | Inr (sts, r) \<Rightarrow> Inr (st # sts, r)))"

text \<open>The loop of the sender sketch: \<open>k\<close> calls of \<open>sendFrame\<close> with the same frame.\<close>

fun sendRepeatedly :: "nat \<Rightarrow> ESP_CAN \<Rightarrow> CAN_Frame \<Rightarrow> (nat \<Rightarrow> bool) \<Rightarrow> gpio \<Rightarrow> ESP_CAN \<times> gpio" where
  "sendRepeatedly 0 n frame rx g = (n, g)"
| "sendRepeatedly (Suc k) n frame rx g =
     (case sendFrame n frame rx g of (ok, n1, g1) \<Rightarrow> sendRepeatedly k n1 frame rx g1)"

text \<open>
  A host that makes any sequence of the three public calls on one node. The result of
  \<open>sendFrame\<close> and the frame that \<open>readFrame\<close> fills are dropped here: only the node
  and its pins are carried on.
\<close>

datatype call =
    Begin int "32 word"
  | SendFrame CAN_Frame "nat \<Rightarrow> bool"
  | ReadFrame CAN_Frame "32 word" bool

fun runCalls :: "call list \<Rightarrow> ESP_CAN \<Rightarrow> gpio \<Rightarrow> ub + (ESP_CAN \<times> gpio)" where
  "runCalls [] n g = Inr (n, g)"
| "runCalls (Begin baudrate now # cs) n g =
     (case ESP_CAN_begin n baudrate now g of
        Inl e \<Rightarrow> Inl e
      | Inr (n1, g1) \<Rightarrow> runCalls cs n1 g1)"
| "runCalls (SendFrame frame rx # cs) n g =
     (case sendFrame n frame rx g of (ok, n1, g1) \<Rightarrow> runCalls cs n1 g1)"
| "runCalls (ReadFrame frame now b # cs) n g =
     (case readFrame n frame now b g of
        Inl e \<Rightarrow> Inl e
      | Inr (st, n1, frame1, g1) \<Rightarrow> runCalls cs n1 g1)"

text \<open>What one call of \<open>sendFrame\<close> added to the trace of the TX line.\<close>

definition txTrace :: "ESP_CAN \<Rightarrow> CAN_Frame \<Rightarrow> (nat \<Rightarrow> bool) \<Rightarrow> gpio \<Rightarrow> bool list" where
  "txTrace n frame rx g = drop (length (wire g)) (wire (snd (snd (sendFrame n frame rx g))))"

section \<open>The specification's own words\<close>

text \<open>
  The classification of the counter pair, on the numbers the counters hold: Bus-Off iff
  TEC > 255 or REC > 255; else Error-Passive iff TEC > 127 or REC > 127; else
  Error-Active.
\<close>

definition classification :: "nat \<Rightarrow> nat \<Rightarrow> CAN_State" where
  "classification t r =
     (if t > 255 \<or> r > 255 then CAN_STATE_BUS_OFF
      else if t > 127 \<or> r > 127 then CAN_STATE_ERROR_PASSIVE
      else CAN_STATE_ERROR_ACTIVE)"

text \<open>
  CAN CRC-15 as the specification words it, on unbounded numbers: per input bit
  \<open>x := ((reg >> 14) & 1) XOR b; reg := (reg << 1) & 0x7FFF; if x then reg := reg XOR 0x4599\<close>,
  from register 0, the output masked with 0x7FFF.
\<close>

definition crc15_step :: "nat \<Rightarrow> bool \<Rightarrow> nat" where
  "crc15_step reg b =
     (let x = (drop_bit 14 reg AND 1) XOR of_bool b;
          reg1 = push_bit 1 reg AND 0x7FFF
      in if x \<noteq> 0 then reg1 XOR 0x4599 else reg1)"

definition crc15 :: "bool list \<Rightarrow> nat" where
  "crc15 bits = fold (\<lambda>b reg. crc15_step reg b) bits 0 AND 0x7FFF"

text \<open>
  The \<open>k\<close> low-order bits of a number, most significant first, and the logical bit stream
  of a standard data frame up to the end of the data field: SOF (one dominant bit), 11
  identifier bits MSB-first, RTR = 0, IDE = 0, r0 = 0, 4 DLC bits MSB-first with the DLC
  clamped to 8, and 8 data bits per byte MSB-first.
\<close>

definition msbFirst :: "nat \<Rightarrow> nat \<Rightarrow> bool list" where
  "msbFirst k v = map (\<lambda>i. bit v i) (rev [0..<k])"

definition logicalBits :: "CAN_Frame \<Rightarrow> bool list" where
  "logicalBits frame =
     (let d = min 8 (unat (dlc frame)) in
      [False] @ msbFirst 11 (unat (id_f frame)) @ [False, False, False] @ msbFirst 4 d @
      concat (map (\<lambda>i. msbFirst 8 (unat (data frame i))) [0..<d]))"

text \<open>The number that a sequence of bits spells, most significant bit first.\<close>

definition bitsValue :: "bool list \<Rightarrow> nat" where
  "bitsValue bs = foldl (\<lambda>v b. 2 * v + of_bool b) 0 bs"

section \<open>Auxiliary notions for the proofs\<close>

text \<open>
  The bits a stuffing loop of \<open>sendFrame\<close> puts on the line when it runs to its end, and
  the run counter and last bit it ends with.
\<close>

fun stuffed :: "bool list \<Rightarrow> int \<Rightarrow> bool \<Rightarrow> bool list" where
  "stuffed [] c l = []"
| "stuffed (b # bs) c l =
     (if (if b = l then c + 1 else 1) = 5 then b # (b = False) # stuffed bs 0 (b = False)
      else b # stuffed bs (if b = l then c + 1 else 1) b)"

fun stuffedEnd :: "bool list \<Rightarrow> int \<Rightarrow> bool \<Rightarrow> int \<times> bool" where
  "stuffedEnd [] c l = (c, l)"
| "stuffedEnd (b # bs) c l =
     (if (if b = l then c + 1 else 1) = 5 then stuffedEnd bs 0 (b = False)
      else stuffedEnd bs (if b = l then c + 1 else 1) b)"

definition driveBits :: "int \<Rightarrow> bool list \<Rightarrow> gpio \<Rightarrow> gpio" where
  "driveBits tx bs g = fold (\<lambda>b h. delayBitTime tx (digitalWrite tx b h)) bs g"

text \<open>
  The first stuffing loop of \<open>sendFrame\<close>, the one that checks arbitration, took its
  early exit.
\<close>

definition arbitrationLost :: "ESP_CAN \<Rightarrow> CAN_Frame \<Rightarrow> (nat \<Rightarrow> bool) \<Rightarrow> gpio \<Rightarrow> bool" where
  "arbitrationLost n frame rx g =
     (fst (sendStuffed n rx True (bitSequence frame) 0 False (snd (sendBit n rx False False g)))
        = None)"

text \<open>
  Some bit of \<open>ws\<close>, driven during the bit periods that follow the first \<open>t\<close> of the
  trace, is recessive and the bus reads dominant at the end of its period.
\<close>

fun dominantSeen :: "(nat \<Rightarrow> bool) \<Rightarrow> nat \<Rightarrow> bool list \<Rightarrow> bool" where
  "dominantSeen rx t [] = False"
| "dominantSeen rx t (w # ws) = ((w \<and> rx (Suc t) = False) \<or> dominantSeen rx (Suc t) ws)"

text \<open>The clamp of the received DLC, \<open>if (frame.dlc > 8) frame.dlc = 8\<close>.\<close>

definition clampDlc :: "8 word \<Rightarrow> 8 word" where
  "clampDlc d0 = (if d0 > 8 then 8 else d0)"

text \<open>What the receiver's run counter satisfies whenever a frame is being read.\<close>

definition rxInv :: "ESP_CAN \<Rightarrow> bool" where
  "rxInv n =
     (rxState n = RX_STATE_IDLE \<or> (0 \<le> consecutiveBits n \<and> consecutiveBits n \<le> 4))"

text \<open>The stored state is the classification of the stored counters.\<close>

definition classified :: "ESP_CAN \<Rightarrow> bool" where
  "classified n = (state n = classification (unat (tec n)) (unat (rec n)))"

section \<open>Concrete nodes, frames and buses\<close>

text \<open>
  Storage of static duration is zeroed before the constructor runs, as for the global
  \<open>ESP_CAN can(5, 4)\<close> of the sketches; the pins start as inputs.
\<close>

definition raw0 :: ESP_CAN where
  "raw0 = \<lparr>tec = 0, rec = 0, state = CAN_STATE_ERROR_ACTIVE, rxPin = 0, txPin = 0,
     bitTimeUs = 0, lastSampleTime = 0, rxState = RX_STATE_IDLE, rxBuffer = (\<lambda>i. False),
     rxBitCount = 0, consecutiveBits = 0, lastBit = False\<rparr>"

definition gpio0 :: gpio where
  "gpio0 = \<lparr>mode = (\<lambda>p. INPUT), level = (\<lambda>p. False), wire = []\<rparr>"

text \<open>The node of the sketches after \<open>can.begin(125000)\<close> at time 0, and its pins.\<close>

definition node125k :: ESP_CAN where
  "node125k = (ESP_CAN_ctor 5 4 raw0)\<lparr>bitTimeUs := 8, lastSampleTime := 0\<rparr>"

definition gpio125k :: gpio where
  "gpio125k = \<lparr>mode = (\<lambda>p. INPUT)(4 := OUTPUT, 5 := INPUT_PULLUP),
     level = (\<lambda>p. False)(4 := True), wire = []\<rparr>"

text \<open>The frame of the sender sketch, and the frame with identifier 0 and no data.\<close>

definition frame123 :: CAN_Frame where
  "frame123 = \<lparr>id_f = 0x123, dlc = 4, data = (\<lambda>i. [0xDE, 0xAD, 0xBE, 0xEF, 0, 0, 0, 0] ! i)\<rparr>"

definition frame000 :: CAN_Frame where
  "frame000 = \<lparr>id_f = 0, dlc = 0, data = (\<lambda>i. 0)\<rparr>"

definition frame200 :: CAN_Frame where
  "frame200 = \<lparr>id_f = 0x200, dlc = 0, data = (\<lambda>i. 0)\<rparr>"

text \<open>
  A bus on which no other node ever drives dominant, one on which another node drives
  dominant during the third bit period of the trace, and two on which another node
  drives dominant during the ACK slot: the 70th bit period for the frame of the sender
  sketch, the 42nd for the frame with identifier 0.
\<close>

definition idleBus :: "nat \<Rightarrow> bool" where
  "idleBus t = True"

definition contendedBus :: "nat \<Rightarrow> bool" where
  "contendedBus t = (t \<noteq> 3)"

definition ackedBus :: "nat \<Rightarrow> bool" where
  "ackedBus t = (t \<noteq> 70)"

definition ackedBus000 :: "nat \<Rightarrow> bool" where
  "ackedBus000 t = (t \<noteq> 42)"


text \<open>
  What the node of the sketches puts on the line when it sends the frame of the sender
  sketch and nobody acknowledges: SOF, the stuffed fields through the CRC, the CRC
  delimiter and the ACK slot.
\<close>

definition trace123 :: "bool list" where
  "trace123 =
  [False, False, False, True, False, False, True, False, False, False, True,
   True, False, False, False, False, True, False, False, True, True, False,
   True, True, True, True, False, True, False, True, False, True, True,
   False, True, True, False, True, True, True, True, True, False, False,
   True, True, True, False, True, True, True, True, True, False, False,
   False, True, True, True, False, False, True, True, False, True, False,
   True, True, True, True]"


text \<open>
  The receiver of the sketches after it has sampled SOF and four recessive bits, as
  \<open>poll_to_midRun\<close> below shows.
\<close>

definition midRun :: ESP_CAN where
  "midRun = node125k\<lparr>lastSampleTime := 40, rxState := RX_STATE_FRAME,
     rxBuffer := (\<lambda>i. False)(0 := True, 1 := True, 2 := True, 3 := True),
     rxBitCount := 4, consecutiveBits := 4, lastBit := True\<rparr>"

section \<open>Fault confinement: basic facts\<close>

lemma classified_updateState: "classified (updateState n)"
  by (simp add: classified_def updateState_def classification_def)

lemma state_updateState: "state (updateState n) \<noteq> CAN_STATE_BUS_OFF"
proof -
  have "unat (tec n) < 256" "unat (rec n) < 256"
    using unsigned_less[of "tec n"] unsigned_less[of "rec n"] by simp_all
  then show ?thesis by (simp add: updateState_def)
qed

lemma counters_updateState: "tec (updateState n) = tec n" "rec (updateState n) = rec n"
  by (simp_all add: updateState_def)

lemma classified_handleError: "classified (handleError n t r)"
  by (simp add: handleError_def Let_def classified_updateState)

lemma classified_handleSuccess: "classified (handleSuccess n t r)"
  by (simp add: handleSuccess_def Let_def classified_updateState)

lemma handleError_tx:
  assumes "state n \<noteq> CAN_STATE_BUS_OFF"
  shows "tec (handleError n True False) = tec n + 8"
    and "rec (handleError n True False) = rec n"
    and "state (handleError n True False) \<noteq> CAN_STATE_BUS_OFF"
    and "state (handleError n True False) = classification (unat (tec n + 8)) (unat (rec n))"
proof -
  have e: "handleError n True False = updateState (n\<lparr>tec := tec n + 8\<rparr>)"
    using assms by (simp add: handleError_def)
  show "tec (handleError n True False) = tec n + 8" "rec (handleError n True False) = rec n"
    by (simp_all add: e counters_updateState)
  show "state (handleError n True False) \<noteq> CAN_STATE_BUS_OFF"
    by (simp only: e state_updateState simp_thms)
  have "classified (handleError n True False)" by (rule classified_handleError)
  then show "state (handleError n True False) = classification (unat (tec n + 8)) (unat (rec n))"
    by (simp add: classified_def e counters_updateState)
qed

section \<open>Receiver: the run counter never passes five\<close>

lemma rxFrameBit_quiet:
  assumes "0 \<le> consecutiveBits n" "consecutiveBits n \<le> 4" "rxState n \<noteq> RX_STATE_IDLE"
      and "rxFrameBit n frame b g = Inr (st, n', frame', g')"
  shows "st = CAN_READ_NO_MSG \<and> frame' = frame \<and> g' = g \<and> rxInv n'
         \<and> tec n' = tec n \<and> rec n' = rec n \<and> state n' = state n"
  using assms
  by (auto simp: rxFrameBit_def rxInv_def Let_def split: if_splits)

lemma rxFrameBit_returns:
  assumes "0 \<le> consecutiveBits n" "consecutiveBits n \<le> 4"
      and "0 \<le> rxBitCount n" "rxBitCount n < 128"
  shows "\<exists>n'. rxFrameBit n frame b g = Inr (CAN_READ_NO_MSG, n', frame, g)
           \<and> rxState n' = rxState n \<and> 0 \<le> rxBitCount n' \<and> rxBitCount n' \<le> rxBitCount n + 1"
  using assms
  by (auto simp: rxFrameBit_def Let_def)

lemma readFrame_quiet:
  assumes "rxInv n" and "readFrame n frame now b g = Inr (st, n', frame', g')"
  shows "st = CAN_READ_NO_MSG \<and> frame' = frame \<and> g' = g \<and> rxInv n'
         \<and> tec n' = tec n \<and> rec n' = rec n \<and> state n' = state n"
proof (cases "state n = CAN_STATE_BUS_OFF \<or> now - lastSampleTime n < word_of_int (bitTimeUs n)")
  case True
  with assms show ?thesis by (auto simp: readFrame_def split: if_splits)
next
  case False
  let ?n1 = "n\<lparr>lastSampleTime := lastSampleTime n + word_of_int (bitTimeUs n)\<rparr>"
  show ?thesis
  proof (cases "rxState n")
    case RX_STATE_IDLE
    with False assms show ?thesis
      by (auto simp: readFrame_def rxInv_def Let_def split: if_splits)
  next
    case RX_STATE_SOF
    with False assms have inv: "0 \<le> consecutiveBits n" "consecutiveBits n \<le> 4"
      by (auto simp: rxInv_def)
    from RX_STATE_SOF False assms(2)
    have "rxFrameBit (?n1\<lparr>rxState := RX_STATE_FRAME\<rparr>) frame b g = Inr (st, n', frame', g')"
      by (simp add: readFrame_def Let_def)
    from rxFrameBit_quiet[OF _ _ _ this] inv show ?thesis by simp
  next
    case RX_STATE_FRAME
    with False assms have inv: "0 \<le> consecutiveBits n" "consecutiveBits n \<le> 4"
      by (auto simp: rxInv_def)
    from RX_STATE_FRAME False assms(2)
    have "rxFrameBit ?n1 frame b g = Inr (st, n', frame', g')"
      by (simp add: readFrame_def Let_def)
    from rxFrameBit_quiet[OF _ _ _ this] inv RX_STATE_FRAME show ?thesis by simp
  qed
qed

lemma readFrame_returns:
  assumes inv: "rxInv n"
      and room: "rxState n = RX_STATE_IDLE \<or> (0 \<le> rxBitCount n \<and> rxBitCount n < 128)"
  shows "\<exists>n'. readFrame n frame now b g = Inr (CAN_READ_NO_MSG, n', frame, g)
           \<and> (rxState n' = RX_STATE_IDLE
                \<or> (rxState n = RX_STATE_IDLE \<and> rxBitCount n' = 0)
                \<or> (rxState n \<noteq> RX_STATE_IDLE \<and> 0 \<le> rxBitCount n' \<and> rxBitCount n' \<le> rxBitCount n + 1))"
proof (cases "state n = CAN_STATE_BUS_OFF \<or> now - lastSampleTime n < word_of_int (bitTimeUs n)")
  case True
  with room show ?thesis by (auto simp: readFrame_def)
next
  case False
  let ?n1 = "n\<lparr>lastSampleTime := lastSampleTime n + word_of_int (bitTimeUs n)\<rparr>"
  show ?thesis
  proof (cases "rxState n")
    case RX_STATE_IDLE
    with False show ?thesis by (auto simp: readFrame_def Let_def)
  next
    case RX_STATE_SOF
    with inv room have c: "0 \<le> consecutiveBits n" "consecutiveBits n \<le> 4"
      "0 \<le> rxBitCount n" "rxBitCount n < 128"
      by (auto simp: rxInv_def)
    from rxFrameBit_returns[of "?n1\<lparr>rxState := RX_STATE_FRAME\<rparr>" frame b g] c
    obtain n' where "rxFrameBit (?n1\<lparr>rxState := RX_STATE_FRAME\<rparr>) frame b g = Inr (CAN_READ_NO_MSG, n', frame, g)"
      "0 \<le> rxBitCount n'" "rxBitCount n' \<le> rxBitCount n + 1"
      by auto
    with RX_STATE_SOF False show ?thesis by (simp add: readFrame_def Let_def)
  next
    case RX_STATE_FRAME
    with inv room have c: "0 \<le> consecutiveBits n" "consecutiveBits n \<le> 4"
      "0 \<le> rxBitCount n" "rxBitCount n < 128"
      by (auto simp: rxInv_def)
    from rxFrameBit_returns[of ?n1 frame b g] c
    obtain n' where "rxFrameBit ?n1 frame b g = Inr (CAN_READ_NO_MSG, n', frame, g)"
      "0 \<le> rxBitCount n'" "rxBitCount n' \<le> rxBitCount n + 1"
      by auto
    with RX_STATE_FRAME False show ?thesis by (simp add: readFrame_def Let_def)
  qed
qed

lemma pollSamples_quiet:
  assumes "rxInv n" and "pollSamples n frame g samples = Inr (sts, n', frame', g')"
  shows "sts = replicate (length samples) CAN_READ_NO_MSG \<and> frame' = frame \<and> g' = g
         \<and> rxInv n' \<and> tec n' = tec n \<and> rec n' = rec n \<and> state n' = state n"
  using assms
proof (induction samples arbitrary: n sts)
  case Nil
  then show ?case by simp
next
  case (Cons b bs)
  from Cons.prems(2) obtain st n1 f1 g1 sts1 where
    step: "readFrame n frame (lastSampleTime n + word_of_int (bitTimeUs n)) b g = Inr (st, n1, f1, g1)"
    and rest: "pollSamples n1 f1 g1 bs = Inr (sts1, n', frame', g')"
    and sts: "sts = st # sts1"
    by (auto split: sum.splits prod.splits)
  from readFrame_quiet[OF Cons.prems(1) step]
  have q: "st = CAN_READ_NO_MSG" "f1 = frame" "g1 = g" "rxInv n1"
    "tec n1 = tec n" "rec n1 = rec n" "state n1 = state n" by simp_all
  from Cons.IH[OF q(4) rest[unfolded q(2,3)]] q sts show ?case by simp
qed

lemma pollSamples_returns:
  assumes "rxInv n" and "length samples \<le> 128"
      and "rxState n = RX_STATE_IDLE \<or> (0 \<le> rxBitCount n \<and> rxBitCount n + int (length samples) \<le> 128)"
  shows "\<exists>r. pollSamples n frame g samples = Inr r"
  using assms
proof (induction samples arbitrary: n)
  case Nil
  then show ?case by simp
next
  case (Cons b bs)
  have room: "rxState n = RX_STATE_IDLE \<or> (0 \<le> rxBitCount n \<and> rxBitCount n < 128)"
    using Cons.prems(3) by auto
  from readFrame_returns[OF Cons.prems(1) room, of frame "lastSampleTime n + word_of_int (bitTimeUs n)" b g]
  obtain n1 where step:
    "readFrame n frame (lastSampleTime n + word_of_int (bitTimeUs n)) b g = Inr (CAN_READ_NO_MSG, n1, frame, g)"
    and cnt: "rxState n1 = RX_STATE_IDLE
                \<or> (rxState n = RX_STATE_IDLE \<and> rxBitCount n1 = 0)
                \<or> (rxState n \<noteq> RX_STATE_IDLE \<and> 0 \<le> rxBitCount n1 \<and> rxBitCount n1 \<le> rxBitCount n + 1)"
    by blast
  have inv1: "rxInv n1" using readFrame_quiet[OF Cons.prems(1) step] by simp
  have room1: "rxState n1 = RX_STATE_IDLE \<or> (0 \<le> rxBitCount n1 \<and> rxBitCount n1 + int (length bs) \<le> 128)"
    using cnt Cons.prems(2,3) by auto
  from Cons.IH[OF inv1 _ room1] Cons.prems(2) obtain r where "pollSamples n1 frame g bs = Inr r"
    by auto
  with step show ?case by (cases r) simp
qed

lemma begin_fresh:
  assumes "ESP_CAN_begin (ESP_CAN_ctor rp tp raw) baudrate now g0 = Inr (n, g)"
  shows "rxState n = RX_STATE_IDLE" "rxInv n" "tec n = 0" "rec n = 0"
    "state n = CAN_STATE_ERROR_ACTIVE"
  using assms
  by (auto simp: ESP_CAN_begin_def ESP_CAN_ctor_def rxInv_def split: if_splits)

section \<open>Sender: what a call puts on the line\<close>

lemma sendBit_active:
  "state n \<noteq> CAN_STATE_BUS_OFF \<Longrightarrow>
   sendBit n rx b chk g =
     (\<not> (chk \<and> b \<and> \<not> rx (Suc (length (wire g)))),
      delayBitTime (txPin n) (digitalWrite (txPin n) b g))"
  by (simp add: sendBit_def delayBitTime_def digitalWrite_def digitalRead_def Let_def)

lemma sendBit_idle:
  "state n \<noteq> CAN_STATE_BUS_OFF \<Longrightarrow> chk = False \<or> (\<forall>t. rx t) \<Longrightarrow>
   sendBit n rx b chk g = (True, delayBitTime (txPin n) (digitalWrite (txPin n) b g))"
  by (auto simp: sendBit_active)

lemma driveBits_simps:
  "driveBits tx [] g = g"
  "driveBits tx (b # bs) g = driveBits tx bs (delayBitTime tx (digitalWrite tx b g))"
  by (simp_all add: driveBits_def)

lemma driveBits_append: "driveBits tx (xs @ ys) g = driveBits tx ys (driveBits tx xs g)"
  by (simp add: driveBits_def)

lemma sendStuffed_idle:
  assumes "state n \<noteq> CAN_STATE_BUS_OFF" "chk = False \<or> (\<forall>t. rx t)"
  shows "sendStuffed n rx chk bs c l g =
           (Some (stuffedEnd bs c l), driveBits (txPin n) (stuffed bs c l) g)"
proof (induction bs arbitrary: c l g)
  case Nil
  show ?case by (simp add: driveBits_simps)
next
  case (Cons b bs)
  show ?case
    by (simp add: Let_def sendBit_idle[OF assms] Cons.IH driveBits_simps)
qed

lemma mode_driveBits: "mode (driveBits tx bs g) = mode g"
  by (induction bs arbitrary: g) (simp_all add: driveBits_simps delayBitTime_def digitalWrite_def)

lemma wire_driveBits:
  "mode g tx = OUTPUT \<Longrightarrow> wire (driveBits tx bs g) = wire g @ bs"
  by (induction bs arbitrary: g) (simp_all add: driveBits_simps delayBitTime_def digitalWrite_def)

lemma stuffed_append:
  "stuffed (xs @ ys) c l =
     stuffed xs c l @ stuffed ys (fst (stuffedEnd xs c l)) (snd (stuffedEnd xs c l))"
  by (induction xs arbitrary: c l) simp_all

lemma sendFrame_node:
  assumes "state n \<noteq> CAN_STATE_BUS_OFF"
  shows "fst (snd (sendFrame n frame rx g)) =
           (if fst (sendFrame n frame rx g) then handleSuccess n True False
            else handleError n True False)"
  using assms
  by (simp add: sendFrame_def Let_def split: prod.splits option.splits)

lemma sendFrame_bus_off:
  "state n = CAN_STATE_BUS_OFF \<Longrightarrow> sendFrame n frame rx g = (False, n, g)"
  by (simp add: sendFrame_def)

lemma sendFrame_idle:
  assumes act: "state n \<noteq> CAN_STATE_BUS_OFF" and idle: "\<forall>t. rx t"
  shows "sendFrame n frame rx g =
           (False, handleError n True False,
            digitalWrite (txPin n) True (pinMode (txPin n) OUTPUT
              (delayBitTime (txPin n) (pinMode (txPin n) INPUT
                 (driveBits (txPin n)
                    (False # stuffed (bitSequence frame @ crcBits (calculateCRC (bitSequence frame))) 0 False @ [True])
                    g)))))"
proof -
  have c: "\<And>chk. chk = False \<or> (\<forall>t. rx t)" using idle by simp
  show ?thesis
    using act idle
    by (simp add: sendFrame_def Let_def sendBit_idle[OF act c] sendStuffed_idle[OF act c]
        ackSlot_def digitalRead_def driveBits_simps driveBits_append stuffed_append
        split: prod.splits)
qed

lemma txTrace_idle:
  assumes act: "state n \<noteq> CAN_STATE_BUS_OFF" and idle: "\<forall>t. rx t"
      and out: "mode g (txPin n) = OUTPUT"
  shows "txTrace n frame rx g =
           False # stuffed (bitSequence frame @ crcBits (calculateCRC (bitSequence frame))) 0 False
             @ [True, True]"
  by (simp add: txTrace_def sendFrame_idle[OF act idle] digitalWrite_def pinMode_def
      delayBitTime_def wire_driveBits[OF out])

lemma sendFrame_arbitration:
  assumes act: "state n \<noteq> CAN_STATE_BUS_OFF" and lost: "arbitrationLost n frame rx g"
  shows "fst (sendFrame n frame rx g) = False"
    and "fst (snd (sendFrame n frame rx g)) = handleError n True False"
proof -
  let ?g0 = "delayBitTime (txPin n) (digitalWrite (txPin n) False g)"
  obtain g1 where "sendStuffed n rx True (bitSequence frame) 0 False ?g0 = (None, g1)"
    using lost by (cases "sendStuffed n rx True (bitSequence frame) 0 False ?g0")
      (simp add: arbitrationLost_def sendBit_active[OF act])
  then have "sendFrame n frame rx g = (False, handleError n True False, g1)"
    using act by (simp add: sendFrame_def Let_def sendBit_active[OF act])
  then show "fst (sendFrame n frame rx g) = False"
    and "fst (snd (sendFrame n frame rx g)) = handleError n True False"
    by simp_all
qed

lemma sendRepeatedly_idle:
  assumes idle: "\<forall>t. rx t"
  shows "state n \<noteq> CAN_STATE_BUS_OFF \<Longrightarrow> classified n \<Longrightarrow>
     tec (fst (sendRepeatedly k n frame rx g)) = tec n + 8 * word_of_nat k
     \<and> rec (fst (sendRepeatedly k n frame rx g)) = rec n
     \<and> classified (fst (sendRepeatedly k n frame rx g))"
proof (induction k arbitrary: n g)
  case 0
  then show ?case by simp
next
  case (Suc k)
  let ?n1 = "handleError n True False"
  obtain g1 where s: "sendFrame n frame rx g = (False, ?n1, g1)"
    using sendFrame_idle[OF Suc.prems(1) idle] by blast
  have h: "tec ?n1 = tec n + 8" "rec ?n1 = rec n" "state ?n1 \<noteq> CAN_STATE_BUS_OFF"
    using handleError_tx[OF Suc.prems(1)] by simp_all
  have c: "classified ?n1" by (rule classified_handleError)
  from Suc.IH[OF h(3) c, of g1] s h show ?case
    by (simp add: algebra_simps)
qed

section \<open>CRC: the 16-bit register against the 15-bit recurrence\<close>

lemma mask15: "(0x7FFF :: nat) = mask 15" "(0x7FFF :: 16 word) = mask 15"
  by (simp_all add: mask_eq_exp_minus_1)

lemma do_xor_word:
  "(drop_bit 14 (r AND 0x4000) XOR of_bool b \<noteq> 0) = (bit r 14 \<noteq> b)" for r :: "16 word"
proof -
  have "drop_bit 14 (r AND 0x4000) = of_bool (bit r 14)"
    by (rule bit_word_eqI) (auto simp: bit_simps)
  then show ?thesis by (cases b; cases "bit r 14"; simp)
qed

lemma do_xor_nat:
  "((drop_bit 14 s AND 1) XOR of_bool b \<noteq> 0) = (bit s 14 \<noteq> b)" for s :: nat
proof -
  have "drop_bit 14 s AND 1 = of_bool (bit s 14)"
    by (simp add: and_one_eq bit_iff_odd_drop_bit mod_2_eq_odd)
  then show ?thesis by (cases b; cases "bit s 14"; simp)
qed

lemma shift_mask:
  "unat (push_bit k r AND mask 15) = push_bit k (unat (r AND mask 15)) AND mask 15"
  for r :: "16 word"
  by (rule bit_eqI) (auto simp: bit_simps)

lemma xor_mask:
  "unat ((w XOR 0x4599) AND mask 15) = unat (w AND mask 15) XOR 0x4599" for w :: "16 word"
proof -
  have "(w XOR 0x4599) AND mask 15 = (w AND mask 15) XOR 0x4599"
    by (simp add: bit.conj_xor_distrib2 mask_eq_exp_minus_1)
  then show ?thesis by (simp add: unsigned_xor_eq)
qed

lemma crcStep_xor: "bit r 14 \<noteq> b \<Longrightarrow> crcStep r b = push_bit 1 r XOR 0x4599"
  unfolding crcStep_def Let_def do_xor_word by (simp only: if_True simp_thms)

lemma crcStep_noxor: "bit r 14 = b \<Longrightarrow> crcStep r b = push_bit 1 r"
  unfolding crcStep_def Let_def do_xor_word by (simp only: not_not if_False simp_thms)

lemma crc15_step_xor:
  "bit s 14 \<noteq> b \<Longrightarrow> crc15_step s b = (push_bit 1 s AND mask 15) XOR 0x4599"
  unfolding crc15_step_def Let_def do_xor_nat mask15 by (simp only: if_True simp_thms)

lemma crc15_step_noxor: "bit s 14 = b \<Longrightarrow> crc15_step s b = push_bit 1 s AND mask 15"
  unfolding crc15_step_def Let_def do_xor_nat mask15 by (simp only: not_not if_False simp_thms)

lemma bit14_mask: "bit (unat (r AND mask 15)) 14 = bit r 14" for r :: "16 word"
  by (simp add: bit_simps)

lemma crc_step_refines:
  "unat (crcStep r b AND mask 15) = crc15_step (unat (r AND mask 15)) b"
proof (cases "bit r 14 \<noteq> b")
  case True
  then have t: "bit (unat (r AND mask 15)) 14 \<noteq> b" by (simp only: bit14_mask simp_thms)
  have "unat (crcStep r b AND mask 15) = unat (push_bit 1 r AND mask 15) XOR 0x4599"
    by (simp only: crcStep_xor[OF True] xor_mask)
  also have "\<dots> = (push_bit 1 (unat (r AND mask 15)) AND mask 15) XOR 0x4599"
    by (simp only: shift_mask)
  also have "\<dots> = crc15_step (unat (r AND mask 15)) b"
    by (simp only: crc15_step_xor[OF t])
  finally show ?thesis .
next
  case False
  then have f: "bit r 14 = b" by simp
  then have t: "bit (unat (r AND mask 15)) 14 = b" by (simp only: bit14_mask)
  have "unat (crcStep r b AND mask 15) = unat (push_bit 1 r AND mask 15)"
    by (simp only: crcStep_noxor[OF f])
  also have "\<dots> = push_bit 1 (unat (r AND mask 15)) AND mask 15"
    by (simp only: shift_mask)
  also have "\<dots> = crc15_step (unat (r AND mask 15)) b"
    by (simp only: crc15_step_noxor[OF t])
  finally show ?thesis .
qed

lemma crc15_step_masked: "crc15_step s b AND mask 15 = crc15_step s b"
proof -
  have p: "take_bit 15 (0x4599 :: nat) = 0x4599"
    by simp
  have "take_bit 15 (take_bit 15 (push_bit 1 s) XOR 0x4599) = take_bit 15 (push_bit 1 s) XOR 0x4599"
    by (simp only: take_bit_xor take_bit_take_bit p min.idem)
  then have x: "((push_bit 1 s AND mask 15) XOR 0x4599) AND mask 15 = (push_bit 1 s AND mask 15) XOR 0x4599"
    by (simp only: take_bit_eq_mask)
  have y: "(push_bit 1 s AND mask 15) AND mask 15 = push_bit 1 s AND mask 15"
    by (simp only: and.assoc and.idem)
  show ?thesis
  proof (cases "bit s 14 \<noteq> b")
    case True
    show ?thesis by (simp only: crc15_step_xor[OF True] x)
  next
    case False
    then have f: "bit s 14 = b" by simp
    show ?thesis by (simp only: crc15_step_noxor[OF f] y)
  qed
qed

lemma crc_fold_refines:
  "unat (fold (\<lambda>b reg. crcStep reg b) bits r AND mask 15) =
     fold (\<lambda>b reg. crc15_step reg b) bits (unat (r AND mask 15))"
proof (induction bits arbitrary: r)
  case Nil
  show ?case by simp
next
  case (Cons b bs)
  show ?case by (simp only: fold_simps Cons.IH crc_step_refines)
qed

lemma crc15_fold_masked:
  "s AND mask 15 = s \<Longrightarrow>
   fold (\<lambda>b reg. crc15_step reg b) bits s AND mask 15 = fold (\<lambda>b reg. crc15_step reg b) bits s"
  by (induction bits arbitrary: s) (simp_all add: crc15_step_masked)

lemma calculateCRC_crc15: "unat (calculateCRC bits) = crc15 bits"
proof -
  have "unat (calculateCRC bits) = fold (\<lambda>b reg. crc15_step reg b) bits 0"
    using crc_fold_refines[of bits 0] by (simp add: calculateCRC_def mask15)
  also have "\<dots> = crc15 bits"
    using crc15_fold_masked[of 0 bits] by (simp add: crc15_def mask15)
  finally show ?thesis .
qed

lemma crc15_leading_zero: "crc15 (False # bits) = crc15 bits"
  by (simp add: crc15_def crc15_step_def)

lemma lsb_test: "(drop_bit i w AND 1 \<noteq> 0) = bit w i" for w :: "'a::len word"
  by (simp add: and_one_eq bit_iff_odd_drop_bit mod_2_eq_odd)

section \<open>Decoder: the shift-and-or loops spell numbers\<close>

lemma shift_in: "push_bit 1 x OR of_bool b = 2 * x + of_bool b" for x :: "'a::len word"
proof -
  have "push_bit 1 x AND of_bool b = 0"
    by (rule bit_word_eqI) (auto simp: bit_simps bit_0)
  then have "push_bit 1 x + of_bool b = push_bit 1 x OR of_bool b"
    by (rule disjunctive_add_eq_or)
  moreover have "push_bit 1 x = 2 * x"
    by (simp add: push_bit_eq_mult)
  ultimately show ?thesis by (simp only:)
qed

lemma fold_shift_in:
  "fold (\<lambda>i x. push_bit 1 x OR of_bool (buf i)) js (word_of_nat v :: 'a::len word) =
     word_of_nat (foldl (\<lambda>v b. 2 * v + of_bool b) v (map buf js))"
proof (induction js arbitrary: v)
  case Nil
  show ?case by simp
next
  case (Cons j js)
  have "push_bit 1 (word_of_nat v :: 'a word) OR of_bool (buf j) = word_of_nat (2 * v + of_bool (buf j))"
    by (simp only: shift_in) simp
  then show ?case using Cons.IH[of "2 * v + of_bool (buf j)"] by simp
qed

lemma readBits_value:
  "fst (readBits buf i k :: 'a::len word \<times> nat) = word_of_nat (bitsValue (map buf [i..<i + k]))"
  "snd (readBits buf i k :: 'a::len word \<times> nat) = i + k"
  using fold_shift_in[of buf "[i..<i + k]" 0, where 'a='a]
  by (simp_all add: readBits_def bitsValue_def)

lemma foldl_bits_bound:
  "foldl (\<lambda>v b. 2 * v + of_bool b) v bs < (v + 1) * 2 ^ length bs" for v :: nat
proof (induction bs arbitrary: v)
  case Nil
  show ?case by simp
next
  case (Cons b bs)
  have "foldl (\<lambda>v b. 2 * v + of_bool b) (2 * v + of_bool b) bs < (2 * v + of_bool b + 1) * 2 ^ length bs"
    by (rule Cons.IH)
  also have "\<dots> \<le> (2 * v + 2) * 2 ^ length bs"
    by (rule mult_right_mono) simp_all
  finally show ?case by (simp add: algebra_simps)
qed

lemma bitsValue_bound: "bitsValue bs < 2 ^ length bs"
  using foldl_bits_bound[of 0 bs] by (simp add: bitsValue_def)

lemma readBits_pair: "readBits buf i k = (fst (readBits buf i k), i + k)"
  by (simp add: readBits_def)

lemma data_loop:
  "fold (\<lambda>i (dat, j). (dat(i := fst (readBits buf j 8)), snd (readBits buf j 8 :: 8 word \<times> nat)))
        [0..<k] (dat0, j0)
   = (\<lambda>i. if i < k then fst (readBits buf (j0 + 8 * i) 8) else dat0 i, j0 + 8 * k)"
  (is "fold ?f [0..<k] _ = _")
proof (induction k)
  case 0
  show ?case by simp
next
  case (Suc k)
  have "fold ?f [0..<Suc k] (dat0, j0) = ?f k (fold ?f [0..<k] (dat0, j0))"
    by (simp only: upt_Suc_append[OF le0] fold_append fold_simps comp_apply id_apply)
  also have "\<dots> = ?f k (\<lambda>i. if i < k then fst (readBits buf (j0 + 8 * i) 8) else dat0 i, j0 + 8 * k)"
    by (simp only: Suc.IH)
  also have "\<dots> = (\<lambda>i. if i < Suc k then fst (readBits buf (j0 + 8 * i) 8) else dat0 i, j0 + 8 * Suc k)"
    by (auto simp: fun_eq_iff readBits_value(2))
  finally show ?case .
qed

lemma decodeFrame_eq:
  "decodeFrame buf frame =
     (frame\<lparr>id_f := fst (readBits buf 0 11),
            dlc := clampDlc (fst (readBits buf 14 4)),
            data := (\<lambda>i. if i < unat (clampDlc (fst (readBits buf 14 4)))
                         then fst (readBits buf (18 + 8 * i) 8) else data frame i)\<rparr>,
      fst (readBits buf (18 + 8 * unat (clampDlc (fst (readBits buf 14 4)))) 15),
      33 + 8 * unat (clampDlc (fst (readBits buf 14 4))))"
proof -
  define ident :: "32 word" where "ident = fst (readBits buf 0 11)"
  define d0 :: "8 word" where "d0 = fst (readBits buf 14 4)"
  define crc :: "nat \<Rightarrow> 16 word" where "crc = (\<lambda>j. fst (readBits buf j 15))"
  have r1: "readBits buf 0 11 = (ident, 11)"
    using readBits_pair[of buf 0 11] by (simp add: ident_def)
  have r2: "readBits buf 14 4 = (d0, 18)"
    using readBits_pair[of buf 14 4] by (simp add: d0_def)
  have r3: "\<And>j. readBits buf j 15 = (crc j, j + 15)"
    using readBits_pair[of buf _ 15] by (simp add: crc_def)
  have "decodeFrame buf frame =
     (frame\<lparr>id_f := ident, dlc := clampDlc d0,
            data := (\<lambda>i. if i < unat (clampDlc d0)
                         then fst (readBits buf (18 + 8 * i) 8) else data frame i)\<rparr>,
      crc (18 + 8 * unat (clampDlc d0)), 33 + 8 * unat (clampDlc d0))"
    by (simp add: decodeFrame_def r1 r2 r3 data_loop clampDlc_def Let_def)
  then show ?thesis by (simp only: ident_def d0_def crc_def)
qed

lemma ctor_fresh:
  "tec (ESP_CAN_ctor rp tp raw) = 0" "rec (ESP_CAN_ctor rp tp raw) = 0"
  "state (ESP_CAN_ctor rp tp raw) = CAN_STATE_ERROR_ACTIVE"
  "rxState (ESP_CAN_ctor rp tp raw) = RX_STATE_IDLE"
  "classified (ESP_CAN_ctor rp tp raw)"
  by (simp_all add: ESP_CAN_ctor_def classified_def classification_def)

lemma idleBus_all: "\<forall>t. idleBus t"
  by (simp add: idleBus_def)

section \<open>The invariant of the stored state\<close>

lemma classified_sendFrame:
  assumes "classified n"
  shows "classified (fst (snd (sendFrame n frame rx g)))"
proof (cases "state n = CAN_STATE_BUS_OFF")
  case True
  with assms show ?thesis by (simp add: sendFrame_bus_off)
next
  case False
  show ?thesis
    by (simp add: sendFrame_node[OF False] classified_handleError classified_handleSuccess)
qed

lemma classified_fields:
  "tec n' = tec n \<Longrightarrow> rec n' = rec n \<Longrightarrow> state n' = state n \<Longrightarrow> classified n \<Longrightarrow> classified n'"
  by (simp add: classified_def)

lemma rxFrameBit_classified:
  assumes "classified n" and "rxFrameBit n frame b g = Inr (st, n', frame', g')"
  shows "classified n'"
proof (cases "st = CAN_READ_NO_MSG")
  case True
  with assms(2) have "tec n' = tec n \<and> rec n' = rec n \<and> state n' = state n"
    by (auto simp: rxFrameBit_def Let_def split: if_splits prod.splits)
  with assms(1) show ?thesis by (simp add: classified_def)
next
  case False
  with assms(2) have "(\<exists>m. n' = handleSuccess m False True) \<or> (\<exists>m. n' = handleError m False True)"
    by (auto simp: rxFrameBit_def Let_def split: if_splits prod.splits)
  then show ?thesis by (auto simp: classified_handleError classified_handleSuccess)
qed

lemma readFrame_classified:
  assumes "classified n" and "readFrame n frame now b g = Inr (st, n', frame', g')"
  shows "classified n'"
proof (cases "state n = CAN_STATE_BUS_OFF \<or> now - lastSampleTime n < word_of_int (bitTimeUs n)")
  case True
  with assms show ?thesis by (auto simp: readFrame_def split: if_splits)
next
  case False
  let ?n1 = "n\<lparr>lastSampleTime := lastSampleTime n + word_of_int (bitTimeUs n)\<rparr>"
  have c1: "classified ?n1" "classified (?n1\<lparr>rxState := RX_STATE_FRAME\<rparr>)"
    using assms(1) by (simp_all add: classified_def)
  show ?thesis
  proof (cases "rxState n")
    case RX_STATE_IDLE
    with False assms show ?thesis
      by (auto simp: readFrame_def Let_def classified_def split: if_splits)
  next
    case RX_STATE_SOF
    with False assms(2)
    have "rxFrameBit (?n1\<lparr>rxState := RX_STATE_FRAME\<rparr>) frame b g = Inr (st, n', frame', g')"
      by (simp add: readFrame_def Let_def)
    from rxFrameBit_classified[OF c1(2) this] show ?thesis .
  next
    case RX_STATE_FRAME
    with False assms(2)
    have "rxFrameBit ?n1 frame b g = Inr (st, n', frame', g')"
      by (simp add: readFrame_def Let_def)
    from rxFrameBit_classified[OF c1(1) this] show ?thesis .
  qed
qed

lemma begin_fields:
  assumes "ESP_CAN_begin n baudrate now g = Inr (n', g')"
  shows "tec n' = tec n" "rec n' = rec n" "state n' = state n" "rxState n' = rxState n"
    "txPin n' = txPin n" "rxPin n' = rxPin n"
  using assms by (auto simp: ESP_CAN_begin_def split: if_splits)

lemma runCalls_classified:
  "classified n \<Longrightarrow> runCalls cs n g = Inr (n', g') \<Longrightarrow> classified n'"
proof (induction cs arbitrary: n g)
  case Nil
  then show ?case by simp
next
  case (Cons c cs)
  show ?case
  proof (cases c)
    case (Begin baudrate now)
    with Cons.prems(2) obtain n1 g1 where
      b: "ESP_CAN_begin n baudrate now g = Inr (n1, g1)" and r: "runCalls cs n1 g1 = Inr (n', g')"
      by (auto split: sum.splits)
    have "classified n1"
      using begin_fields(1-3)[OF b] Cons.prems(1) by (simp add: classified_def)
    from Cons.IH[OF this r] show ?thesis .
  next
    case (SendFrame frame rx)
    obtain ok n1 g1 where s: "sendFrame n frame rx g = (ok, n1, g1)"
      by (cases "sendFrame n frame rx g") auto
    with SendFrame Cons.prems(2) have r: "runCalls cs n1 g1 = Inr (n', g')" by simp
    have "classified n1"
      using classified_sendFrame[OF Cons.prems(1), of frame rx g] s by simp
    from Cons.IH[OF this r] show ?thesis .
  next
    case (ReadFrame frame now b)
    with Cons.prems(2) obtain st n1 f1 g1 where
      s: "readFrame n frame now b g = Inr (st, n1, f1, g1)" and r: "runCalls cs n1 g1 = Inr (n', g')"
      by (auto split: sum.splits)
    from Cons.IH[OF readFrame_classified[OF Cons.prems(1) s] r] show ?thesis .
  qed
qed

section \<open>The concrete node\<close>

lemma begin_125k:
  "ESP_CAN_begin (ESP_CAN_ctor 5 4 raw0) 125000 0 gpio0 = Inr (node125k, gpio125k)"
  by (simp add: ESP_CAN_begin_def ESP_CAN_ctor_def raw0_def gpio0_def node125k_def gpio125k_def
      cdiv_def pinMode_def digitalWrite_def)

lemma node125k_fields:
  "state node125k = CAN_STATE_ERROR_ACTIVE" "tec node125k = 0" "rec node125k = 0"
  "txPin node125k = 4" "rxPin node125k = 5" "rxState node125k = RX_STATE_IDLE"
  "bitTimeUs node125k = 8" "lastSampleTime node125k = 0"
  by (simp_all add: node125k_def ESP_CAN_ctor_def raw0_def)

lemma gpio125k_fields:
  "mode gpio125k 4 = OUTPUT" "wire gpio125k = []" "level gpio125k 4 = True"
  by (simp_all add: gpio125k_def)

lemma bitSequence_frame200:
  "bitSequence frame200 = [False, True, False, False, False, False, False, False, False, False, False,
     False, False, False, False, False, False, False]"
  by code_simp


lemma node125k_active: "state node125k \<noteq> CAN_STATE_BUS_OFF"
  by (simp add: node125k_fields)

lemma lost_frame200: "arbitrationLost node125k frame200 contendedBus gpio125k"
  by (simp add: arbitrationLost_def bitSequence_frame200 sendBit_active[OF node125k_active] Let_def
      delayBitTime_def digitalWrite_def contendedBus_def gpio125k_fields)


section \<open>Concrete traces\<close>

lemma stuffed_frame123:
  "False # stuffed (bitSequence frame123 @ crcBits (calculateCRC (bitSequence frame123))) 0 False
     @ [True, True] = trace123"
  by code_simp

lemma txTrace_frame123: "txTrace node125k frame123 idleBus gpio125k = trace123"
  using txTrace_idle[OF node125k_active idleBus_all, of gpio125k frame123]
  by (simp add: node125k_fields gpio125k_fields stuffed_frame123)

lemma length_trace123: "length trace123 = 70"
  by (simp add: trace123_def)

lemma stuffed_frame000:
  "False # stuffed (bitSequence frame000 @ crcBits (calculateCRC (bitSequence frame000))) 0 False
     @ [True, True] =
  [False, False, False, False, False, False, True, False, False, False,
   False, False, True, False, False, False, False, False, True, False,
   False, False, False, False, True, False, False, False, False, False,
   True, False, False, False, False, False, True, False, False, False, True,
   True]"
  by code_simp

section \<open>Decoder: what the caller's frame holds\<close>

lemma rxBuffer_handlers:
  "rxBuffer (handleError m t r) = rxBuffer m" "rxBuffer (handleSuccess m t r) = rxBuffer m"
  by (simp_all add: handleError_def handleSuccess_def updateState_def Let_def)

lemma rxFrameBit_frame:
  assumes "rxFrameBit n frame b g = Inr (st, n', frame', g')"
  shows "(st = CAN_READ_NO_MSG \<and> frame' = frame)
       \<or> (st \<noteq> CAN_READ_NO_MSG \<and> frame' = fst (decodeFrame (rxBuffer n') frame))"
  using assms
  by (auto simp: rxFrameBit_def Let_def rxBuffer_handlers split: if_splits prod.splits)

lemma readFrame_frame:
  assumes "readFrame n frame now b g = Inr (st, n', frame', g')"
  shows "(st = CAN_READ_NO_MSG \<and> frame' = frame)
       \<or> (st \<noteq> CAN_READ_NO_MSG \<and> frame' = fst (decodeFrame (rxBuffer n') frame))"
  using assms rxFrameBit_frame
  by (auto simp: readFrame_def Let_def split: if_splits RxState.splits)

lemma unat_bits32: "length bs \<le> 11 \<Longrightarrow> unat (word_of_nat (bitsValue bs) :: 32 word) = bitsValue bs"
proof -
  assume "length bs \<le> 11"
  then have "(2::nat) ^ length bs \<le> 2 ^ 11" by (rule power_increasing) simp
  with bitsValue_bound[of bs] have "bitsValue bs < 2 ^ 32" by simp
  then show ?thesis by (simp add: unat_of_nat)
qed

lemma unat_bits8: "length bs \<le> 8 \<Longrightarrow> unat (word_of_nat (bitsValue bs) :: 8 word) = bitsValue bs"
proof -
  assume "length bs \<le> 8"
  then have "(2::nat) ^ length bs \<le> 2 ^ 8" by (rule power_increasing) simp
  with bitsValue_bound[of bs] have "bitsValue bs < 2 ^ 8" by simp
  then show ?thesis by (simp add: unat_of_nat)
qed

lemma unat_clampDlc: "unat (clampDlc d) = min 8 (unat d)"
  by (simp add: clampDlc_def word_less_nat_alt min_def)

lemma decodeFrame_fields:
  fixes buf frame
  defines "decoded \<equiv> fst (decodeFrame buf frame)"
  shows "unat (id_f decoded) = bitsValue (map buf [0..<11])"
    and "unat (dlc decoded) = min 8 (bitsValue (map buf [14..<18]))"
    and "i < unat (dlc decoded) \<Longrightarrow> unat (data decoded i) = bitsValue (map buf [18 + 8 * i..<26 + 8 * i])"
    and "unat (dlc decoded) \<le> i \<Longrightarrow> data decoded i = data frame i"
proof -
  show "unat (id_f decoded) = bitsValue (map buf [0..<11])"
    using unat_bits32[of "map buf [0..<11]"]
    by (simp add: decoded_def decodeFrame_eq readBits_value)
  show d: "unat (dlc decoded) = min 8 (bitsValue (map buf [14..<18]))"
    using unat_bits8[of "map buf [14..<18]"]
    by (simp add: decoded_def decodeFrame_eq readBits_value unat_clampDlc)
  show "unat (data decoded i) = bitsValue (map buf [18 + 8 * i..<26 + 8 * i])"
    if "i < unat (dlc decoded)"
  proof -
    have "data decoded i = fst (readBits buf (18 + 8 * i) 8)"
      using that by (simp add: decoded_def decodeFrame_eq)
    moreover have "18 + 8 * i + 8 = 26 + 8 * i" by simp
    ultimately show ?thesis
      using unat_bits8[of "map buf [18 + 8 * i..<26 + 8 * i]"]
      by (simp add: readBits_value)
  qed
  show "data decoded i = data frame i" if "unat (dlc decoded) \<le> i"
    using that by (simp add: decoded_def decodeFrame_eq)
qed

lemma poll_to_midRun:
  "pollSamples node125k frame000 gpio125k [False, True, True, True, True]
     = Inr (replicate 5 CAN_READ_NO_MSG, midRun, frame000, gpio125k)"
  by (simp add: readFrame_def rxFrameBit_def node125k_def ESP_CAN_ctor_def raw0_def midRun_def
      Let_def numeral_eq_Suc)

lemma midRun_fields:
  "state midRun \<noteq> CAN_STATE_BUS_OFF" "rxState midRun = RX_STATE_FRAME"
  "consecutiveBits midRun = 4" "lastBit midRun = True" "0 \<le> rxBitCount midRun"
  "rxBitCount midRun < 128" "rxBitCount midRun = 4" "lastSampleTime midRun = 40"
  "bitTimeUs midRun = 8"
  "rxBuffer midRun = (\<lambda>i. False)(0 := True, 1 := True, 2 := True, 3 := True)"
  by (simp_all add: midRun_def node125k_def ESP_CAN_ctor_def raw0_def)

lemma readFrame_overwrites:
  assumes "readFrame n frame now b g = Inr (st, n', frame', g')"
  shows "(st = CAN_READ_NO_MSG \<longrightarrow> frame' = frame)
       \<and> (st \<noteq> CAN_READ_NO_MSG \<longrightarrow>
            unat (id_f frame') = bitsValue (map (rxBuffer n') [0..<11])
          \<and> unat (dlc frame') = min 8 (bitsValue (map (rxBuffer n') [14..<18]))
          \<and> (\<forall>i. if i < unat (dlc frame')
                 then unat (data frame' i) = bitsValue (map (rxBuffer n') [18 + 8 * i..<26 + 8 * i])
                 else data frame' i = data frame i))"
proof (cases "st = CAN_READ_NO_MSG")
  case True
  with readFrame_frame[OF assms] show ?thesis by simp
next
  case False
  with readFrame_frame[OF assms] have "frame' = fst (decodeFrame (rxBuffer n') frame)"
    by simp
  with False decodeFrame_fields[where buf="rxBuffer n'" and frame=frame] show ?thesis
    by (auto simp: not_less)
qed

section \<open>How long a frame is on the wire\<close>

lemma stuffed_length:
  "0 \<le> c \<Longrightarrow> c \<le> 4 \<Longrightarrow> 5 * length (stuffed bs c l) \<le> 6 * length bs + nat c"
proof (induction bs arbitrary: c l)
  case Nil
  show ?case by simp
next
  case (Cons b bs)
  show ?case
  proof (cases "(if b = l then c + 1 else 1) = 5")
    case True
    then have c4: "c = 4" and bl: "b = l" by (auto split: if_splits)
    from Cons.IH[of 0 "b = False"] c4 bl show ?thesis by simp
  next
    case False
    let ?c1 = "if b = l then c + 1 else 1"
    have r: "0 \<le> ?c1" "?c1 \<le> 4" "nat ?c1 \<le> nat c + 1"
      using False Cons.prems by (auto split: if_splits)
    from Cons.IH[OF r(1,2), of b] False r(3) show ?thesis by simp
  qed
qed

lemma length_bitSequence: "length (bitSequence frame) \<le> 82"
proof -
  have "unat (if dlc frame > 8 then 8 else dlc frame) \<le> 8"
    by (simp add: word_less_nat_alt not_less word_le_nat_alt)
  then show ?thesis
    by (simp add: bitSequence_def Let_def length_concat o_def sum_list_triv del: upt_Suc)
qed

lemma wire_sendBit:
  "state n \<noteq> CAN_STATE_BUS_OFF \<Longrightarrow>
   length (wire (snd (sendBit n rx b chk g))) = Suc (length (wire g))"
  by (simp add: sendBit_active delayBitTime_def digitalWrite_def)

lemma wire_sendStuffed:
  assumes act: "state n \<noteq> CAN_STATE_BUS_OFF"
  shows "length (wire (snd (sendStuffed n rx chk bs c l g)))
           \<le> length (wire g) + length (stuffed bs c l)"
proof (induction bs arbitrary: c l g)
  case Nil
  show ?case by simp
next
  case (Cons b bs)
  let ?r1 = "sendBit n rx b chk g"
  let ?r2 = "sendBit n rx (b = False) chk (snd ?r1)"
  have w1: "length (wire (snd ?r1)) = Suc (length (wire g))"
    by (rule wire_sendBit[OF act])
  have w2: "length (wire (snd ?r2)) = Suc (Suc (length (wire g)))"
    using wire_sendBit[OF act, of rx "b = False" chk "snd ?r1"] w1 by simp
  show ?case
    using Cons.IH[of 0 "b = False" "snd ?r2"] Cons.IH[of "if b = l then c + 1 else 1" b "snd ?r1"] w1 w2
    by (auto simp: Let_def)
qed

lemma stuffedEnd_range:
  "0 \<le> c \<Longrightarrow> c \<le> 4 \<Longrightarrow> 0 \<le> fst (stuffedEnd bs c l) \<and> fst (stuffedEnd bs c l) \<le> 4"
proof (induction bs arbitrary: c l)
  case Nil
  then show ?case by simp
next
  case (Cons b bs)
  show ?case
  proof (cases "(if b = l then c + 1 else 1) = 5")
    case True
    with Cons.IH[of 0 "b = False"] show ?thesis by simp
  next
    case False
    let ?c1 = "if b = l then c + 1 else 1"
    have r: "0 \<le> ?c1" "?c1 \<le> 4"
      using False Cons.prems by (auto split: if_splits)
    from Cons.IH[OF r, of b] False show ?thesis by simp
  qed
qed

lemma sendStuffed_end:
  assumes act: "state n \<noteq> CAN_STATE_BUS_OFF"
  shows "fst (sendStuffed n rx chk bs c l g) = Some cl \<Longrightarrow> cl = stuffedEnd bs c l"
proof (induction bs arbitrary: c l g)
  case Nil
  then show ?case by simp
next
  case (Cons b bs)
  then show ?case
    by (auto simp: Let_def split: if_splits)
qed


lemma wire_ackSlot: "length (wire (snd (ackSlot n rx g))) = Suc (length (wire g))"
  by (simp add: ackSlot_def Let_def delayBitTime_def digitalWrite_def pinMode_def)

lemma wire_eof:
  assumes act: "state n \<noteq> CAN_STATE_BUS_OFF"
  shows "length (wire (fold (\<lambda>i h. snd (sendBit n rx True False h)) is g)) = length (wire g) + length is"
  by (induction "is" arbitrary: g) (simp_all add: wire_sendBit[OF act])

lemma wire_sendFrame:
  assumes act: "state n \<noteq> CAN_STATE_BUS_OFF"
  shows "length (wire (snd (snd (sendFrame n frame rx g))))
           \<le> length (wire g) + 11
               + length (stuffed (bitSequence frame @ crcBits (calculateCRC (bitSequence frame))) 0 False)"
proof -
  let ?bits = "bitSequence frame"
  let ?crc = "crcBits (calculateCRC ?bits)"
  define g0 where "g0 = snd (sendBit n rx False False g)"
  have sof: "sendBit n rx False False g = (True, g0)"
    by (simp add: g0_def sendBit_active[OF act])
  have w0: "length (wire g0) = Suc (length (wire g))"
    unfolding g0_def by (rule wire_sendBit[OF act])
  define r1 where "r1 = fst (sendStuffed n rx True ?bits 0 False g0)"
  define g1 where "g1 = snd (sendStuffed n rx True ?bits 0 False g0)"
  have l1: "sendStuffed n rx True ?bits 0 False g0 = (r1, g1)"
    by (simp add: r1_def g1_def)
  have w1: "length (wire g1) \<le> Suc (length (wire g)) + length (stuffed ?bits 0 False)"
    using wire_sendStuffed[OF act, of rx True ?bits 0 False g0] w0 by (simp add: g1_def)
  have split: "length (stuffed (?bits @ ?crc) 0 False)
      = length (stuffed ?bits 0 False)
        + length (stuffed ?crc (fst (stuffedEnd ?bits 0 False)) (snd (stuffedEnd ?bits 0 False)))"
    by (simp add: stuffed_append)
  show ?thesis
  proof (cases r1)
    case None
    have "sendFrame n frame rx g = (False, handleError n True False, g1)"
      using act by (simp add: sendFrame_def Let_def sof l1 None)
    with w1 split show ?thesis by simp
  next
    case (Some cl)
    have cl: "cl = stuffedEnd ?bits 0 False"
      using sendStuffed_end[OF act, of rx True ?bits 0 False g0 cl] Some by (simp add: r1_def)
    define r2 where "r2 = fst (sendStuffed n rx False ?crc (fst cl) (snd cl) g1)"
    define g2 where "g2 = snd (sendStuffed n rx False ?crc (fst cl) (snd cl) g1)"
    have l2: "sendStuffed n rx False ?crc (fst cl) (snd cl) g1 = (r2, g2)"
      by (simp add: r2_def g2_def)
    have w2: "length (wire g2) \<le> Suc (length (wire g)) + length (stuffed (?bits @ ?crc) 0 False)"
      using wire_sendStuffed[OF act, of rx False ?crc "fst cl" "snd cl" g1] w1 split cl
      by (simp add: g2_def)
    have pre: "sendFrame n frame rx g =
        (case r2 of
           None \<Rightarrow> (False, handleError n True False, g2)
         | Some cl2 \<Rightarrow>
             let del = sendBit n rx True False g2
             in if fst del = False then (False, handleError n True False, snd del)
                else
                  let ack = ackSlot n rx (snd del)
                  in if fst ack = False then (False, handleError n True False, snd ack)
                     else
                       let g3 = snd (sendBit n rx True False (snd ack));
                           g4 = fold (\<lambda>i h. snd (sendBit n rx True False h)) [0..<7] g3
                       in (True, handleSuccess n True False, g4))"
      using act l2 by (cases cl) (simp add: sendFrame_def Let_def sof l1 Some)
    show ?thesis
    proof (cases r2)
      case None
      with pre w2 show ?thesis by simp
    next
      case (Some cl2)
      define g3 where "g3 = snd (sendBit n rx True False g2)"
      have del: "sendBit n rx True False g2 = (True, g3)"
        by (simp add: g3_def sendBit_active[OF act])
      have w3: "length (wire g3) = Suc (length (wire g2))"
        unfolding g3_def by (rule wire_sendBit[OF act])
      define a where "a = fst (ackSlot n rx g3)"
      define g4 where "g4 = snd (ackSlot n rx g3)"
      have ack: "ackSlot n rx g3 = (a, g4)" by (simp add: a_def g4_def)
      have w4: "length (wire g4) = Suc (Suc (length (wire g2)))"
        using wire_ackSlot[of n rx g3] w3 by (simp add: g4_def)
      show ?thesis
      proof (cases a)
        case False
        with pre Some del ack have "sendFrame n frame rx g = (False, handleError n True False, g4)"
          by simp
        with w2 w4 show ?thesis by simp
      next
        case True
        define g5 where "g5 = snd (sendBit n rx True False g4)"
        define g6 where "g6 = fold (\<lambda>i h. snd (sendBit n rx True False h)) [0..<7] g5"
        from pre Some del ack True
        have "sendFrame n frame rx g = (True, handleSuccess n True False, g6)"
          by (simp add: g5_def g6_def Let_def)
        moreover have "length (wire g6) = length (wire g4) + 8"
          using wire_eof[OF act, of rx "[0..<7]" g5] wire_sendBit[OF act, of rx True False g4]
          by (simp add: g5_def g6_def)
        ultimately show ?thesis using w2 w4 by simp
      qed
    qed
  qed
qed

lemma txTrace_length: "length (txTrace n frame rx g) \<le> 127"
proof (cases "state n = CAN_STATE_BUS_OFF")
  case True
  then show ?thesis by (simp add: txTrace_def sendFrame_bus_off)
next
  case False
  let ?bits = "bitSequence frame"
  let ?crc = "crcBits (calculateCRC ?bits)"
  have "length (?bits @ ?crc) \<le> 97"
    using length_bitSequence[of frame] by (simp add: crcBits_def)
  moreover have "5 * length (stuffed (?bits @ ?crc) 0 False) \<le> 6 * length (?bits @ ?crc) + nat 0"
    by (rule stuffed_length) simp_all
  ultimately have "length (stuffed (?bits @ ?crc) 0 False) \<le> 116" by simp
  with wire_sendFrame[OF False, of frame rx g] show ?thesis
    by (simp add: txTrace_def)
qed

section \<open>Sender: when the arbitration loop exits early\<close>

lemma sendStuffed_exit:
  assumes act: "state n \<noteq> CAN_STATE_BUS_OFF"
  shows "(fst (sendStuffed n rx chk bs c l g) = None)
           = (chk \<and> dominantSeen rx (length (wire g)) (stuffed bs c l))"
proof (induction bs arbitrary: c l g)
  case Nil
  show ?case by simp
next
  case (Cons b bs)
  let ?L = "length (wire g)"
  let ?c1 = "if b = l then c + 1 else 1"
  let ?r1 = "sendBit n rx b chk g"
  let ?r2 = "sendBit n rx (b = False) chk (snd ?r1)"
  let ?lost1 = "chk \<and> b \<and> \<not> rx (Suc ?L)"
  let ?lost2 = "chk \<and> \<not> b \<and> \<not> rx (Suc (Suc ?L))"
  have w1: "length (wire (snd ?r1)) = Suc ?L"
    by (rule wire_sendBit[OF act])
  have w2: "length (wire (snd ?r2)) = Suc (Suc ?L)"
    using wire_sendBit[OF act, of rx "b = False" chk "snd ?r1"] w1 by simp
  have s1: "fst ?r1 = (\<not> ?lost1)"
    by (simp add: sendBit_active[OF act])
  have s2: "fst ?r2 = (\<not> ?lost2)"
    using w1 by (simp add: sendBit_active[OF act])
  have unfold: "sendStuffed n rx chk (b # bs) c l g =
     (if fst ?r1 = False then (None, snd ?r1)
      else if ?c1 = 5 then
        (if fst ?r2 = False then (None, snd ?r2)
         else sendStuffed n rx chk bs 0 (b = False) (snd ?r2))
      else sendStuffed n rx chk bs ?c1 b (snd ?r1))"
    by (simp only: sendStuffed.simps Let_def)
  have head: "dominantSeen rx ?L (stuffed (b # bs) c l) =
     (if ?c1 = 5
      then ((b \<and> \<not> rx (Suc ?L)) \<or> (\<not> b \<and> \<not> rx (Suc (Suc ?L)))
              \<or> dominantSeen rx (Suc (Suc ?L)) (stuffed bs 0 (b = False)))
      else ((b \<and> \<not> rx (Suc ?L)) \<or> dominantSeen rx (Suc ?L) (stuffed bs ?c1 b)))"
    by simp
  have ih5: "(fst (sendStuffed n rx chk bs 0 (b = False) (snd ?r2)) = None)
      = (chk \<and> dominantSeen rx (Suc (Suc ?L)) (stuffed bs 0 (b = False)))"
    using Cons.IH[of 0 "b = False" "snd ?r2"] w2 by simp
  have ih: "(fst (sendStuffed n rx chk bs ?c1 b (snd ?r1)) = None)
      = (chk \<and> dominantSeen rx (Suc ?L) (stuffed bs ?c1 b))"
    using Cons.IH[of ?c1 b "snd ?r1"] w1 by simp
  show ?case
    unfolding unfold head s1 s2
    using ih5 ih by (cases "?c1 = 5"; cases chk; cases b; auto)
qed

lemma arbitrationLost_iff:
  assumes act: "state n \<noteq> CAN_STATE_BUS_OFF"
  shows "arbitrationLost n frame rx g
           = dominantSeen rx (Suc (length (wire g))) (stuffed (bitSequence frame) 0 False)"
  by (simp add: arbitrationLost_def sendStuffed_exit[OF act] sendBit_active[OF act]
      delayBitTime_def digitalWrite_def)

lemma rev_upt_11: "rev [0..<11] = [10, 9, 8, 7, 6, 5, 4, 3, 2, 1, 0]"
  by code_simp

lemma low_word_bits:
  fixes w :: "32 word"
  assumes "w < 0x40" and "6 \<le> i"
  shows "(drop_bit i w AND 1 \<noteq> 0) = False"
proof -
  have "unat w < 2 ^ 6" using assms(1) by (simp add: word_less_nat_alt)
  also have "(2::nat) ^ 6 \<le> 2 ^ i" using assms(2) by (rule power_increasing) simp
  finally have "unat w div 2 ^ i = 0" by simp
  then have "\<not> bit (unat w) i" by (simp add: bit_iff_odd)
  then have "\<not> bit w i" by (simp add: bit_unsigned_iff)
  then show ?thesis by (simp only: lsb_test simp_thms)
qed

lemma bitSequence_low_id:
  assumes "id_f frame < 0x40"
  shows "\<exists>rest. bitSequence frame = False # False # False # False # False # rest"
  by (simp add: bitSequence_def Let_def rev_upt_11 low_word_bits[OF assms])

section \<open>Sender: the trace only grows\<close>

lemma wire_sendBit_ext:
  assumes act: "state n \<noteq> CAN_STATE_BUS_OFF"
  shows "\<exists>x. wire (snd (sendBit n rx b chk g)) = wire g @ [x]"
  by (simp add: sendBit_active[OF act] delayBitTime_def digitalWrite_def)

lemma wire_driveBits_ext: "\<exists>e. wire (driveBits tx bs g) = wire g @ e"
proof (induction bs arbitrary: g)
  case Nil
  show ?case by (simp add: driveBits_simps)
next
  case (Cons b bs)
  obtain e where "wire (driveBits tx bs (delayBitTime tx (digitalWrite tx b g)))
      = wire (delayBitTime tx (digitalWrite tx b g)) @ e"
    using Cons.IH by blast
  then show ?case
    by (simp add: driveBits_simps delayBitTime_def digitalWrite_def)
qed

lemma wire_sendStuffed_ext:
  assumes act: "state n \<noteq> CAN_STATE_BUS_OFF"
  shows "\<exists>ext. wire (snd (sendStuffed n rx chk bs c l g)) = wire g @ ext"
proof (induction bs arbitrary: c l g)
  case Nil
  show ?case by simp
next
  case (Cons b bs)
  let ?r1 = "sendBit n rx b chk g"
  let ?r2 = "sendBit n rx (b = False) chk (snd ?r1)"
  obtain x1 where w1: "wire (snd ?r1) = wire g @ [x1]"
    using wire_sendBit_ext[OF act] by blast
  obtain x2 where w2: "wire (snd ?r2) = wire g @ [x1, x2]"
    using wire_sendBit_ext[OF act, of rx "b = False" chk "snd ?r1"] w1 by auto
  obtain e5 where i5: "wire (snd (sendStuffed n rx chk bs 0 (b = False) (snd ?r2))) = wire (snd ?r2) @ e5"
    using Cons.IH by blast
  obtain e1 where i1: "wire (snd (sendStuffed n rx chk bs (if b = l then c + 1 else 1) b (snd ?r1)))
      = wire (snd ?r1) @ e1"
    using Cons.IH by blast
  have unfold: "sendStuffed n rx chk (b # bs) c l g =
     (if fst ?r1 = False then (None, snd ?r1)
      else if (if b = l then c + 1 else 1) = 5 then
        (if fst ?r2 = False then (None, snd ?r2)
         else sendStuffed n rx chk bs 0 (b = False) (snd ?r2))
      else sendStuffed n rx chk bs (if b = l then c + 1 else 1) b (snd ?r1))"
    by (simp only: sendStuffed.simps Let_def)
  show ?case
    unfolding unfold using w1 w2 i5 i1 by (simp split: if_splits)
qed

lemma wire_sendFrame_ext:
  assumes act: "state n \<noteq> CAN_STATE_BUS_OFF"
  shows "\<exists>ext. wire (snd (snd (sendFrame n frame rx g)))
           = wire (snd (sendStuffed n rx True (bitSequence frame) 0 False
                          (snd (sendBit n rx False False g)))) @ ext"
proof -
  let ?bits = "bitSequence frame"
  let ?crc = "crcBits (calculateCRC ?bits)"
  define g0 where "g0 = snd (sendBit n rx False False g)"
  have sof: "sendBit n rx False False g = (True, g0)"
    by (simp add: g0_def sendBit_active[OF act])
  define r1 where "r1 = fst (sendStuffed n rx True ?bits 0 False g0)"
  define g1 where "g1 = snd (sendStuffed n rx True ?bits 0 False g0)"
  have l1: "sendStuffed n rx True ?bits 0 False g0 = (r1, g1)"
    by (simp add: r1_def g1_def)
  have goal: "(\<exists>ext. wire (snd (snd (sendFrame n frame rx g))) = wire g1 @ ext)"
  proof (cases r1)
    case None
    have "sendFrame n frame rx g = (False, handleError n True False, g1)"
      using act by (simp add: sendFrame_def Let_def sof l1 None)
    then show ?thesis by simp
  next
    case (Some cl)
    define r2 where "r2 = fst (sendStuffed n rx False ?crc (fst cl) (snd cl) g1)"
    define g2 where "g2 = snd (sendStuffed n rx False ?crc (fst cl) (snd cl) g1)"
    have l2: "sendStuffed n rx False ?crc (fst cl) (snd cl) g1 = (r2, g2)"
      by (simp add: r2_def g2_def)
    obtain e2 where w2: "wire g2 = wire g1 @ e2"
      using wire_sendStuffed_ext[OF act, of rx False ?crc "fst cl" "snd cl" g1] by (auto simp: g2_def)
    have pre: "sendFrame n frame rx g =
        (case r2 of
           None \<Rightarrow> (False, handleError n True False, g2)
         | Some cl2 \<Rightarrow>
             let del = sendBit n rx True False g2
             in if fst del = False then (False, handleError n True False, snd del)
                else
                  let ack = ackSlot n rx (snd del)
                  in if fst ack = False then (False, handleError n True False, snd ack)
                     else
                       let g3 = snd (sendBit n rx True False (snd ack));
                           g4 = fold (\<lambda>i h. snd (sendBit n rx True False h)) [0..<7] g3
                       in (True, handleSuccess n True False, g4))"
      using act l2 by (cases cl) (simp add: sendFrame_def Let_def sof l1 Some)
    show ?thesis
    proof (cases r2)
      case None
      with pre w2 show ?thesis by simp
    next
      case (Some cl2)
      define g3 where "g3 = snd (sendBit n rx True False g2)"
      have del: "sendBit n rx True False g2 = (True, g3)"
        by (simp add: g3_def sendBit_active[OF act])
      obtain x3 where w3: "wire g3 = wire g2 @ [x3]"
        using wire_sendBit_ext[OF act, of rx True False g2] by (auto simp: g3_def)
      define a where "a = fst (ackSlot n rx g3)"
      define g4 where "g4 = snd (ackSlot n rx g3)"
      have ack: "ackSlot n rx g3 = (a, g4)" by (simp add: a_def g4_def)
      obtain x4 where w4: "wire g4 = wire g3 @ [x4]"
        by (simp add: g4_def ackSlot_def Let_def delayBitTime_def digitalWrite_def pinMode_def)
      show ?thesis
      proof (cases a)
        case False
        with pre Some del ack have "sendFrame n frame rx g = (False, handleError n True False, g4)"
          by simp
        with w2 w3 w4 show ?thesis by simp
      next
        case True
        define g5 where "g5 = snd (sendBit n rx True False g4)"
        define g6 where "g6 = fold (\<lambda>i h. snd (sendBit n rx True False h)) [0..<7] g5"
        from pre Some del ack True
        have res: "sendFrame n frame rx g = (True, handleSuccess n True False, g6)"
          by (simp add: g5_def g6_def Let_def)
        have "g6 = driveBits (txPin n) (replicate 8 True) g4"
          by (simp add: g6_def g5_def sendBit_active[OF act] driveBits_simps numeral_eq_Suc)
        then have "\<exists>e. wire g6 = wire g4 @ e"
          using wire_driveBits_ext by blast
        with res w2 w3 w4 show ?thesis by auto
      qed
    qed
  qed
  then show ?thesis by (simp add: g1_def g0_def)
qed

lemma sendStuffed_five_dominant:
  assumes act: "state n \<noteq> CAN_STATE_BUS_OFF" and out: "mode g (txPin n) = OUTPUT"
  shows "\<exists>ext. wire (snd (sendStuffed n rx True
                  (False # False # False # False # False # rest) 0 False g))
           = wire g @ [False, False, False, False, False, True] @ ext"
proof -
  define g5 where "g5 = driveBits (txPin n) [False, False, False, False, False] g"
  define g6 where "g6 = delayBitTime (txPin n) (digitalWrite (txPin n) True g5)"
  have w6: "wire g6 = wire g @ [False, False, False, False, False, True]"
    using out
    by (simp add: g6_def g5_def driveBits_simps delayBitTime_def digitalWrite_def)
  have run: "sendStuffed n rx True (False # False # False # False # False # rest) 0 False g
      = (if \<not> rx (Suc (length (wire g5))) then (None, g6)
         else sendStuffed n rx True rest 0 True g6)"
    by (simp add: sendStuffed.simps sendBit_active[OF act] Let_def g6_def g5_def driveBits_simps)
  obtain e where "wire (snd (sendStuffed n rx True rest 0 True g6)) = wire g6 @ e"
    using wire_sendStuffed_ext[OF act] by blast
  then show ?thesis
    unfolding run using w6 by simp
qed

section \<open>Sender: an acknowledged transmission\<close>

lemma length_wire_driveBits: "length (wire (driveBits tx bs g)) = length (wire g) + length bs"
  by (induction bs arbitrary: g) (simp_all add: driveBits_simps delayBitTime_def digitalWrite_def)

lemma sendStuffed_noloss:
  assumes act: "state n \<noteq> CAN_STATE_BUS_OFF"
  shows "chk = False \<or> dominantSeen rx (length (wire g)) (stuffed bs c l) = False \<Longrightarrow>
         sendStuffed n rx chk bs c l g =
           (Some (stuffedEnd bs c l), driveBits (txPin n) (stuffed bs c l) g)"
proof (induction bs arbitrary: c l g)
  case Nil
  show ?case by (simp add: driveBits_simps)
next
  case (Cons b bs)
  let ?L = "length (wire g)"
  let ?c1 = "if b = l then c + 1 else 1"
  let ?g1 = "delayBitTime (txPin n) (digitalWrite (txPin n) b g)"
  let ?g2 = "delayBitTime (txPin n) (digitalWrite (txPin n) (b = False) ?g1)"
  have w1: "length (wire ?g1) = Suc ?L"
    by (simp add: delayBitTime_def digitalWrite_def)
  have w2: "length (wire ?g2) = Suc (Suc ?L)"
    by (simp add: delayBitTime_def digitalWrite_def)
  show ?case
  proof (cases "?c1 = 5")
    case True
    from Cons.prems True
    have ok: "\<not> (chk \<and> b \<and> \<not> rx (Suc ?L))" "\<not> (chk \<and> \<not> b \<and> \<not> rx (Suc (Suc ?L)))"
      and rest': "chk = False \<or> dominantSeen rx (Suc (Suc ?L)) (stuffed bs 0 (b = False)) = False"
      by auto
    from rest' have rest: "chk = False \<or> dominantSeen rx (length (wire ?g2)) (stuffed bs 0 (b = False)) = False"
      by (simp only: w2)
    have s1: "sendBit n rx b chk g = (True, ?g1)"
      using ok(1) by (simp add: sendBit_active[OF act])
    have s2: "sendBit n rx (\<not> b) chk ?g1 = (True, ?g2)"
      using ok(2) w1 by (simp add: sendBit_active[OF act])
    have "sendStuffed n rx chk (b # bs) c l g = sendStuffed n rx chk bs 0 (b = False) ?g2"
      using True by (simp add: s1 s2 Let_def)
    also have "\<dots> = (Some (stuffedEnd bs 0 (b = False)), driveBits (txPin n) (stuffed bs 0 (b = False)) ?g2)"
      by (rule Cons.IH[OF rest])
    finally show ?thesis using True by (simp add: driveBits_simps)
  next
    case False
    from Cons.prems False
    have ok: "\<not> (chk \<and> b \<and> \<not> rx (Suc ?L))"
      and rest': "chk = False \<or> dominantSeen rx (Suc ?L) (stuffed bs ?c1 b) = False"
      by auto
    from rest' have rest: "chk = False \<or> dominantSeen rx (length (wire ?g1)) (stuffed bs ?c1 b) = False"
      by (simp only: w1)
    have s1: "sendBit n rx b chk g = (True, ?g1)"
      using ok by (simp add: sendBit_active[OF act])
    have "sendStuffed n rx chk (b # bs) c l g = sendStuffed n rx chk bs ?c1 b ?g1"
      using False by (simp add: s1 Let_def)
    also have "\<dots> = (Some (stuffedEnd bs ?c1 b), driveBits (txPin n) (stuffed bs ?c1 b) ?g1)"
      by (rule Cons.IH[OF rest])
    finally show ?thesis using False by (simp add: driveBits_simps)
  qed
qed

lemma sendFrame_acked:
  assumes act: "state n \<noteq> CAN_STATE_BUS_OFF"
      and out: "mode g (txPin n) = OUTPUT"
      and noloss: "dominantSeen rx (Suc (length (wire g))) (stuffed (bitSequence frame) 0 False) = False"
      and ack: "rx (length (wire g) + 3
                  + length (stuffed (bitSequence frame @ crcBits (calculateCRC (bitSequence frame))) 0 False))
                = False"
  shows "fst (sendFrame n frame rx g) = True"
    and "fst (snd (sendFrame n frame rx g)) = handleSuccess n True False"
    and "txTrace n frame rx g =
           False # stuffed (bitSequence frame @ crcBits (calculateCRC (bitSequence frame))) 0 False
             @ [True, True] @ replicate 8 True"
proof -
  let ?tx = "txPin n"
  let ?bits = "bitSequence frame"
  let ?crc = "crcBits (calculateCRC ?bits)"
  let ?e = "stuffedEnd ?bits 0 False"
  let ?all = "stuffed (?bits @ ?crc) 0 False"
  define ec where "ec = fst ?e"
  define el where "el = snd ?e"
  have e: "?e = (ec, el)" by (simp add: ec_def el_def)
  define g0 where "g0 = driveBits ?tx [False] g"
  define g1 where "g1 = driveBits ?tx (stuffed ?bits 0 False) g0"
  define g2 where "g2 = driveBits ?tx (stuffed ?crc ec el) g1"
  define g3 where "g3 = driveBits ?tx [True] g2"
  define g4 where "g4 = delayBitTime ?tx (pinMode ?tx INPUT g3)"
  define g5 where "g5 = digitalWrite ?tx True (pinMode ?tx OUTPUT g4)"
  define g6 where "g6 = driveBits ?tx (replicate 8 True) g5"
  have sof: "sendBit n rx False False g = (True, g0)"
    by (simp add: sendBit_active[OF act] g0_def driveBits_simps)
  have len0: "length (wire g0) = Suc (length (wire g))"
    by (simp add: g0_def length_wire_driveBits)
  have "sendStuffed n rx True ?bits 0 False g0 = (Some ?e, g1)"
    unfolding g1_def by (rule sendStuffed_noloss[OF act]) (simp add: len0 noloss)
  then have l1: "sendStuffed n rx True ?bits 0 False g0 = (Some (ec, el), g1)"
    by (simp only: e)
  have l2: "sendStuffed n rx False ?crc ec el g1 = (Some (stuffedEnd ?crc ec el), g2)"
    unfolding g2_def by (rule sendStuffed_noloss[OF act]) simp
  have del: "sendBit n rx True False g2 = (True, g3)"
    by (simp add: sendBit_active[OF act] g3_def driveBits_simps)
  have all: "?all = stuffed ?bits 0 False @ stuffed ?crc ec el"
    unfolding ec_def el_def by (rule stuffed_append)
  have len3: "length (wire g3) = length (wire g) + 2 + length ?all"
    by (simp add: g3_def g2_def g1_def length_wire_driveBits len0 all)
  have len4: "length (wire g4) = length (wire g) + 3 + length ?all"
    using len3 by (simp add: g4_def delayBitTime_def pinMode_def)
  have "digitalRead rx g4 = False"
    by (simp only: digitalRead_def len4 ack)
  then have ackr: "ackSlot n rx g3 = (True, g5)"
    by (simp add: ackSlot_def Let_def g4_def g5_def)
  have eof: "fold (\<lambda>i h. snd (sendBit n rx True False h)) [0..<7] (snd (sendBit n rx True False g5)) = g6"
    by (simp add: sendBit_active[OF act] g6_def driveBits_simps numeral_eq_Suc)
  have res: "sendFrame n frame rx g = (True, handleSuccess n True False, g6)"
    using act by (simp add: sendFrame_def Let_def sof l1 l2 del ackr eof)
  show "fst (sendFrame n frame rx g) = True"
    and "fst (snd (sendFrame n frame rx g)) = handleSuccess n True False"
    by (simp_all add: res)
  have m3: "mode g3 ?tx = OUTPUT"
    by (simp add: g3_def g2_def g1_def g0_def mode_driveBits out)
  have w3: "wire g3 = wire g @ False # ?all @ [True]"
    by (simp add: g3_def g2_def g1_def g0_def wire_driveBits mode_driveBits out all)
  have w5: "wire g5 = wire g3 @ [True]" and m5: "mode g5 ?tx = OUTPUT"
    by (simp_all add: g5_def g4_def delayBitTime_def pinMode_def digitalWrite_def)
  have "wire g6 = wire g @ False # ?all @ [True, True] @ replicate 8 True"
    by (simp add: g6_def wire_driveBits[OF m5] w5 w3)
  then show "txTrace n frame rx g = False # ?all @ [True, True] @ replicate 8 True"
    by (simp add: txTrace_def res)
qed

lemma noloss_frame123:
  "dominantSeen ackedBus (Suc 0) (stuffed (bitSequence frame123) 0 False) = False"
  by code_simp

lemma acklen_frame123:
  "3 + length (stuffed (bitSequence frame123 @ crcBits (calculateCRC (bitSequence frame123))) 0 False) = 70"
  by code_simp

lemma acked_frame123:
  "fst (sendFrame node125k frame123 ackedBus gpio125k) = True"
  "tec (fst (snd (sendFrame node125k frame123 ackedBus gpio125k))) = 0"
  "txTrace node125k frame123 ackedBus gpio125k = trace123 @ replicate 8 True"
proof -
  have out: "mode gpio125k (txPin node125k) = OUTPUT"
    by (simp add: node125k_fields gpio125k_fields)
  have nl: "dominantSeen ackedBus (Suc (length (wire gpio125k))) (stuffed (bitSequence frame123) 0 False) = False"
    by (simp add: gpio125k_fields noloss_frame123)
  have ack: "ackedBus (length (wire gpio125k) + 3
      + length (stuffed (bitSequence frame123 @ crcBits (calculateCRC (bitSequence frame123))) 0 False)) = False"
    using acklen_frame123 by (simp add: gpio125k_fields ackedBus_def)
  note r = sendFrame_acked[OF node125k_active out nl ack]
  show "fst (sendFrame node125k frame123 ackedBus gpio125k) = True" by (rule r(1))
  show "tec (fst (snd (sendFrame node125k frame123 ackedBus gpio125k))) = 0"
    by (simp add: r(2) handleSuccess_def updateState_def node125k_fields)
  have "False # stuffed (bitSequence frame123 @ crcBits (calculateCRC (bitSequence frame123))) 0 False
      @ [True, True] @ replicate 8 True = trace123 @ replicate 8 True"
    using stuffed_frame123 by simp
  then show "txTrace node125k frame123 ackedBus gpio125k = trace123 @ replicate 8 True"
    by (simp only: r(3))
qed

lemma noloss_frame000:
  "dominantSeen ackedBus000 (Suc 0) (stuffed (bitSequence frame000) 0 False) = False"
  by code_simp

lemma acklen_frame000:
  "3 + length (stuffed (bitSequence frame000 @ crcBits (calculateCRC (bitSequence frame000))) 0 False) = 42"
  by code_simp

lemma acked_frame000: "fst (sendFrame node125k frame000 ackedBus000 gpio125k) = True"
proof -
  have out: "mode gpio125k (txPin node125k) = OUTPUT"
    by (simp add: node125k_fields gpio125k_fields)
  have nl: "dominantSeen ackedBus000 (Suc (length (wire gpio125k))) (stuffed (bitSequence frame000) 0 False) = False"
    by (simp add: gpio125k_fields noloss_frame000)
  have ack: "ackedBus000 (length (wire gpio125k) + 3
      + length (stuffed (bitSequence frame000 @ crcBits (calculateCRC (bitSequence frame000))) 0 False)) = False"
    using acklen_frame000 by (simp add: gpio125k_fields ackedBus000_def)
  show ?thesis by (rule sendFrame_acked(1)[OF node125k_active out nl ack])
qed

section \<open>Sender: the CRC field on the wire\<close>

lemma word_bits_msbFirst:
  "map (\<lambda>i. drop_bit i w AND 1 \<noteq> 0) (rev [0..<k]) = msbFirst k (unat w)" for w :: "'a::len word"
  unfolding lsb_test msbFirst_def by (simp add: bit_unsigned_iff)

lemma unat_clamped: "unat (if d > 8 then 8 else d) = min 8 (unat d)" for d :: "8 word"
  by (simp add: word_less_nat_alt min_def)

lemma bitSequence_logical: "False # bitSequence frame = logicalBits frame"
  unfolding bitSequence_def logicalBits_def Let_def word_bits_msbFirst unat_clamped
  by simp

lemma crcBits_msbFirst: "crcBits crc = msbFirst 15 (unat crc)"
  unfolding crcBits_def by (rule word_bits_msbFirst)

lemma sendFrame_noloss:
  assumes act: "state n \<noteq> CAN_STATE_BUS_OFF"
      and out: "mode g (txPin n) = OUTPUT"
      and noloss: "dominantSeen rx (Suc (length (wire g))) (stuffed (bitSequence frame) 0 False) = False"
  shows "txTrace n frame rx g =
           False # stuffed (bitSequence frame @ crcBits (calculateCRC (bitSequence frame))) 0 False
             @ [True, True] @ (if fst (sendFrame n frame rx g) then replicate 8 True else [])"
proof -
  let ?tx = "txPin n"
  let ?bits = "bitSequence frame"
  let ?crc = "crcBits (calculateCRC ?bits)"
  let ?e = "stuffedEnd ?bits 0 False"
  let ?all = "stuffed (?bits @ ?crc) 0 False"
  let ?ackpos = "length (wire g) + 3 + length ?all"
  show ?thesis
  proof (cases "rx ?ackpos")
    case False
    then have ack: "rx ?ackpos = False" by simp
    from sendFrame_acked(1,3)[OF act out noloss ack] show ?thesis by simp
  next
    case True
    define ec where "ec = fst ?e"
    define el where "el = snd ?e"
    have e: "?e = (ec, el)" by (simp add: ec_def el_def)
    define g0 where "g0 = driveBits ?tx [False] g"
    define g1 where "g1 = driveBits ?tx (stuffed ?bits 0 False) g0"
    define g2 where "g2 = driveBits ?tx (stuffed ?crc ec el) g1"
    define g3 where "g3 = driveBits ?tx [True] g2"
    define g4 where "g4 = delayBitTime ?tx (pinMode ?tx INPUT g3)"
    define g5 where "g5 = digitalWrite ?tx True (pinMode ?tx OUTPUT g4)"
    have sof: "sendBit n rx False False g = (True, g0)"
      by (simp add: sendBit_active[OF act] g0_def driveBits_simps)
    have len0: "length (wire g0) = Suc (length (wire g))"
      by (simp add: g0_def length_wire_driveBits)
    have "sendStuffed n rx True ?bits 0 False g0 = (Some ?e, g1)"
      unfolding g1_def by (rule sendStuffed_noloss[OF act]) (simp add: len0 noloss)
    then have l1: "sendStuffed n rx True ?bits 0 False g0 = (Some (ec, el), g1)"
      by (simp only: e)
    have l2: "sendStuffed n rx False ?crc ec el g1 = (Some (stuffedEnd ?crc ec el), g2)"
      unfolding g2_def by (rule sendStuffed_noloss[OF act]) simp
    have del: "sendBit n rx True False g2 = (True, g3)"
      by (simp add: sendBit_active[OF act] g3_def driveBits_simps)
    have all: "?all = stuffed ?bits 0 False @ stuffed ?crc ec el"
      unfolding ec_def el_def by (rule stuffed_append)
    have len3: "length (wire g3) = length (wire g) + 2 + length ?all"
      by (simp add: g3_def g2_def g1_def length_wire_driveBits len0 all)
    have len4: "length (wire g4) = length (wire g) + 3 + length ?all"
      using len3 by (simp add: g4_def delayBitTime_def pinMode_def)
    have "digitalRead rx g4 = True"
      using True by (simp only: digitalRead_def len4)
    then have ackr: "ackSlot n rx g3 = (False, g5)"
      by (simp add: ackSlot_def Let_def g4_def g5_def)
    have res: "sendFrame n frame rx g = (False, handleError n True False, g5)"
      using act by (simp add: sendFrame_def Let_def sof l1 l2 del ackr)
    have w3: "wire g3 = wire g @ False # ?all @ [True]"
      by (simp add: g3_def g2_def g1_def g0_def wire_driveBits mode_driveBits out all)
    have w5: "wire g5 = wire g3 @ [True]"
      by (simp_all add: g5_def g4_def delayBitTime_def pinMode_def digitalWrite_def)
    show ?thesis
      by (simp add: txTrace_def res w5 w3)
  qed
qed

lemma crc_frame123: "calculateCRC (bitSequence frame123) = 0x4E6B"
  by code_simp

lemma won_frame123: "\<not> arbitrationLost node125k frame123 ackedBus gpio125k"
  by (simp add: arbitrationLost_iff[OF node125k_active] gpio125k_fields noloss_frame123)

section \<open>Receiver: after any calls\<close>

lemma rxInv_fields:
  "rxState n' = rxState n \<Longrightarrow> consecutiveBits n' = consecutiveBits n \<Longrightarrow> rxInv n \<Longrightarrow> rxInv n'"
  by (simp add: rxInv_def)







section \<open>Fault confinement\<close>

text \<open>
  Claim C2. From a freshly constructed node, on a bus where nobody acknowledges, every
  transmission fails at the ACK slot and adds 8 to the 8-bit TEC, which therefore holds
  \<open>8 k mod 256\<close> after \<open>k\<close> failures. After 16 failures TEC is 128 and the node is
  Error-Passive, as the claim says. After 32 failures the claim wants TEC = 256 and
  Bus-Off; the counter has wrapped to 0 and the node is Error-Active again.
\<close>

theorem no_ack_counter_wraps:
  "unat (tec (fst (sendRepeatedly k (ESP_CAN_ctor rp tp raw) frame idleBus g))) = (8 * k) mod 256
   \<and> tec (fst (sendRepeatedly 16 (ESP_CAN_ctor rp tp raw) frame idleBus g)) = 128
   \<and> state (fst (sendRepeatedly 16 (ESP_CAN_ctor rp tp raw) frame idleBus g)) = CAN_STATE_ERROR_PASSIVE
   \<and> tec (fst (sendRepeatedly 32 (ESP_CAN_ctor rp tp raw) frame idleBus g)) = 0
   \<and> state (fst (sendRepeatedly 32 (ESP_CAN_ctor rp tp raw) frame idleBus g)) = CAN_STATE_ERROR_ACTIVE"
proof -
  let ?n0 = "ESP_CAN_ctor rp tp raw"
  have act: "state ?n0 \<noteq> CAN_STATE_BUS_OFF" by (simp add: ctor_fresh)
  have run: "tec (fst (sendRepeatedly j ?n0 frame idleBus g)) = 8 * word_of_nat j
      \<and> rec (fst (sendRepeatedly j ?n0 frame idleBus g)) = 0
      \<and> classified (fst (sendRepeatedly j ?n0 frame idleBus g))" for j
    using sendRepeatedly_idle[OF idleBus_all act ctor_fresh(5), of j frame g]
    by (simp add: ctor_fresh)
  have "unat (8 * word_of_nat k :: 8 word) = (8 * k) mod 256"
    by (simp add: unat_word_ariths unat_of_nat mod_mult_right_eq)
  then have general: "unat (tec (fst (sendRepeatedly k ?n0 frame idleBus g))) = (8 * k) mod 256"
    using run[of k] by simp
  have t16: "tec (fst (sendRepeatedly 16 ?n0 frame idleBus g)) = 128"
    using run[of 16] by simp
  have t32: "tec (fst (sendRepeatedly 32 ?n0 frame idleBus g)) = 0"
    using run[of 32] by simp
  have s16: "state (fst (sendRepeatedly 16 ?n0 frame idleBus g)) = CAN_STATE_ERROR_PASSIVE"
    using run[of 16] by (simp add: classified_def classification_def t16)
  have s32: "state (fst (sendRepeatedly 32 ?n0 frame idleBus g)) = CAN_STATE_ERROR_ACTIVE"
    using run[of 32] by (simp add: classified_def classification_def t32)
  from general t16 s16 t32 s32 show ?thesis by simp
qed

text \<open>
  Claim C9. After construction and after any sequence of calls of \<open>begin\<close>, \<open>sendFrame\<close>
  and \<open>readFrame\<close> that stays clear of undefined behaviour, the stored state is the
  classification of the stored counters: Bus-Off iff TEC > 255 or REC > 255, else
  Error-Passive iff TEC > 127 or REC > 127, else Error-Active.
\<close>

theorem state_is_classification:
  assumes "runCalls cs (ESP_CAN_ctor rp tp raw) g = Inr (n, g')"
  shows "state n = classification (unat (tec n)) (unat (rec n))"
proof -
  have "classified n"
    using runCalls_classified[OF ctor_fresh(5) assms] .
  then show ?thesis by (simp only: classified_def)
qed

text \<open>
  The node of the sketches after \<open>begin(125000)\<close>, one unacknowledged transmission and
  one poll of an idle line: TEC is 8 and the state is its classification.
\<close>

theorem state_is_classification_witness:
  "\<exists>n g'. runCalls [Begin 125000 0, SendFrame frame123 idleBus, ReadFrame frame000 8 True]
              (ESP_CAN_ctor 5 4 raw0) gpio0 = Inr (n, g')
     \<and> tec n = 8 \<and> rec n = 0
     \<and> state n = classification (unat (tec n)) (unat (rec n))"
proof -
  let ?n1 = "handleError node125k True False"
  have act: "state node125k \<noteq> CAN_STATE_BUS_OFF" by (simp add: node125k_fields)
  obtain g1 where s: "sendFrame node125k frame123 idleBus gpio125k = (False, ?n1, g1)"
    using sendFrame_idle[OF act idleBus_all] by blast
  have inv: "rxInv ?n1"
    by (simp add: rxInv_def handleError_def updateState_def node125k_fields Let_def)
  have idle: "rxState ?n1 = RX_STATE_IDLE \<or> (0 \<le> rxBitCount ?n1 \<and> rxBitCount ?n1 < 128)"
    by (simp add: handleError_def updateState_def node125k_fields Let_def)
  obtain n2 where r: "readFrame ?n1 frame000 8 True g1 = Inr (CAN_READ_NO_MSG, n2, frame000, g1)"
    using readFrame_returns[OF inv idle] by blast
  have c: "tec n2 = tec ?n1" "rec n2 = rec ?n1"
    using readFrame_quiet[OF inv r] by simp_all
  have run: "runCalls [Begin 125000 0, SendFrame frame123 idleBus, ReadFrame frame000 8 True]
              (ESP_CAN_ctor 5 4 raw0) gpio0 = Inr (n2, g1)"
    by (simp add: begin_125k s r)
  have "tec n2 = 8" "rec n2 = 0"
    using c handleError_tx(1,2)[OF act] by (simp_all add: node125k_fields)
  with run state_is_classification[OF run] show ?thesis by blast
qed




section \<open>Arbitration\<close>

text \<open>
  Claim C3, as the claim states it, fails: every early exit of the arbitration loop runs
  \<open>handleError(true, false)\<close>. The node of the sketches sends identifier 0x200 while
  another node drives the bus dominant during the second identifier bit: \<open>sendFrame\<close>
  returns false and TEC has gone from 0 to 8.
\<close>

theorem arbitration_loss_counterexample:
  "arbitrationLost node125k frame200 contendedBus gpio125k
   \<and> fst (sendFrame node125k frame200 contendedBus gpio125k) = False
   \<and> tec node125k = 0
   \<and> tec (fst (snd (sendFrame node125k frame200 contendedBus gpio125k))) = 8"
  using sendFrame_arbitration[OF node125k_active lost_frame200]
    handleError_tx(1)[OF node125k_active] lost_frame200
  by (simp add: node125k_fields)

text \<open>
  Claim C3, amended. Whenever \<open>sendFrame\<close> aborts because it lost arbitration, which
  is when one of the stuffed identifier-through-data bits it drove was recessive and
  the bus read dominant at the end of that bit period, it returns false and scores a
  transmit error: TEC has grown by 8 (modulo 256), REC is unchanged, and the state is
  the classification of the new counters.
\<close>

theorem arbitration_loss_is_scored:
  assumes "state n \<noteq> CAN_STATE_BUS_OFF" and "arbitrationLost n frame rx g"
  shows "dominantSeen rx (Suc (length (wire g))) (stuffed (bitSequence frame) 0 False)
     \<and> fst (sendFrame n frame rx g) = False
     \<and> tec (fst (snd (sendFrame n frame rx g))) = tec n + 8
     \<and> rec (fst (snd (sendFrame n frame rx g))) = rec n
     \<and> state (fst (snd (sendFrame n frame rx g))) = classification (unat (tec n + 8)) (unat (rec n))"
  using sendFrame_arbitration[OF assms] handleError_tx[OF assms(1)]
    arbitrationLost_iff[OF assms(1), of frame rx g] assms(2)
  by simp

theorem arbitration_loss_is_scored_witness:
  "state node125k \<noteq> CAN_STATE_BUS_OFF
   \<and> arbitrationLost node125k frame200 contendedBus gpio125k
   \<and> fst (sendFrame node125k frame200 contendedBus gpio125k) = False
   \<and> tec (fst (snd (sendFrame node125k frame200 contendedBus gpio125k))) = 8
   \<and> rec (fst (snd (sendFrame node125k frame200 contendedBus gpio125k))) = 0
   \<and> state (fst (snd (sendFrame node125k frame200 contendedBus gpio125k))) = CAN_STATE_ERROR_ACTIVE"
  using arbitration_loss_is_scored[OF node125k_active lost_frame200] node125k_active lost_frame200
  by (simp add: node125k_fields classification_def)

section \<open>CRC\<close>

text \<open>
  Claim C6. The array that \<open>sendFrame\<close> fills is the logical bit stream of the frame
  without its SOF bit, and the value it computes is CAN CRC-15, by the recurrence of the
  specification, of the stream from SOF through the end of the data field. When the node
  is not Bus-Off and does not lose arbitration, what it puts on the line is SOF, then
  (stuffed by its two loops) the logical bits followed by the fifteen bits of that value,
  most significant first, then the CRC delimiter and the ACK slot, and the ACK delimiter
  and EOF if the frame was acknowledged. For identifier 0 and DLC 0 the value is 0.
\<close>

theorem crc_field_is_crc15:
  assumes act: "state n \<noteq> CAN_STATE_BUS_OFF" and out: "mode g (txPin n) = OUTPUT"
      and won: "\<not> arbitrationLost n frame rx g"
  shows "False # bitSequence frame = logicalBits frame
       \<and> unat (calculateCRC (bitSequence frame)) = crc15 (logicalBits frame)
       \<and> txTrace n frame rx g =
           False # stuffed (tl (logicalBits frame) @ msbFirst 15 (crc15 (logicalBits frame))) 0 False
             @ [True, True] @ (if fst (sendFrame n frame rx g) then replicate 8 True else [])
       \<and> crc15 (logicalBits \<lparr>id_f = 0, dlc = 0, data = bytes\<rparr>) = 0
       \<and> calculateCRC (bitSequence \<lparr>id_f = 0, dlc = 0, data = bytes\<rparr>) = 0"
proof -
  have bits: "False # bitSequence frame = logicalBits frame"
    by (rule bitSequence_logical)
  have "unat (calculateCRC (bitSequence frame)) = crc15 (False # bitSequence frame)"
    by (simp only: calculateCRC_crc15 crc15_leading_zero)
  then have crc: "unat (calculateCRC (bitSequence frame)) = crc15 (logicalBits frame)"
    by (simp only: bits)
  have field: "crcBits (calculateCRC (bitSequence frame)) = msbFirst 15 (crc15 (logicalBits frame))"
    by (simp only: crcBits_msbFirst crc)
  have tl: "bitSequence frame = tl (logicalBits frame)"
    using bits by (metis list.sel(3))
  have noloss: "dominantSeen rx (Suc (length (wire g))) (stuffed (bitSequence frame) 0 False) = False"
    using won by (simp add: arbitrationLost_iff[OF act])
  have trace: "txTrace n frame rx g =
           False # stuffed (tl (logicalBits frame) @ msbFirst 15 (crc15 (logicalBits frame))) 0 False
             @ [True, True] @ (if fst (sendFrame n frame rx g) then replicate 8 True else [])"
    using sendFrame_noloss[OF act out noloss] by (simp only: field tl[symmetric])
  have z: "bitSequence \<lparr>id_f = 0, dlc = 0, data = bytes\<rparr> = replicate 18 False"
    by (simp add: bitSequence_def numeral_eq_Suc)
  then have c0: "calculateCRC (bitSequence \<lparr>id_f = 0, dlc = 0, data = bytes\<rparr>) = 0"
    by (simp add: calculateCRC_def crcStep_def numeral_eq_Suc)
  have "crc15 (logicalBits \<lparr>id_f = 0, dlc = 0, data = bytes\<rparr>)
      = unat (calculateCRC (bitSequence \<lparr>id_f = 0, dlc = 0, data = bytes\<rparr>))"
    by (simp only: calculateCRC_crc15 bitSequence_logical[symmetric] crc15_leading_zero)
  then have s0: "crc15 (logicalBits \<lparr>id_f = 0, dlc = 0, data = bytes\<rparr>) = 0"
    by (simp only: c0 unsigned_0)
  from bits crc trace s0 c0 show ?thesis by (intro conjI)
qed

text \<open>
  The node of the sketches sends the frame of the sender sketch and is acknowledged: the
  CRC is 0x4E6B.
\<close>

theorem crc_field_is_crc15_witness:
  "state node125k \<noteq> CAN_STATE_BUS_OFF \<and> mode gpio125k (txPin node125k) = OUTPUT
   \<and> \<not> arbitrationLost node125k frame123 ackedBus gpio125k
   \<and> calculateCRC (bitSequence frame123) = 0x4E6B
   \<and> crc15 (logicalBits frame123) = 0x4E6B
   \<and> txTrace node125k frame123 ackedBus gpio125k =
        False # stuffed (tl (logicalBits frame123) @ msbFirst 15 0x4E6B) 0 False
          @ [True, True] @ replicate 8 True
   \<and> txTrace node125k frame123 ackedBus gpio125k = trace123 @ replicate 8 True"
proof -
  have m: "mode gpio125k (txPin node125k) = OUTPUT"
    by (simp add: node125k_fields gpio125k_fields)
  note t = crc_field_is_crc15[OF node125k_active m won_frame123]
  from t have c: "crc15 (logicalBits frame123) = 0x4E6B"
    by (simp add: crc_frame123)
  from t have "txTrace node125k frame123 ackedBus gpio125k =
        False # stuffed (tl (logicalBits frame123) @ msbFirst 15 (crc15 (logicalBits frame123))) 0 False
          @ [True, True] @ replicate 8 True"
    by (simp add: acked_frame123(1))
  then have tr: "txTrace node125k frame123 ackedBus gpio125k =
        False # stuffed (tl (logicalBits frame123) @ msbFirst 15 0x4E6B) 0 False
          @ [True, True] @ replicate 8 True"
    by (simp only: c)
  from node125k_active m won_frame123 crc_frame123 c tr acked_frame123(3) show ?thesis
    by (intro conjI)
qed

section \<open>Receiver\<close>

text \<open>
  Claim C5. The code does the opposite of the claim (and of its own comment, "Next bit
  is a stuff bit, ignore it by not storing it"). When a sample makes the run five long,
  \<open>readFrame\<close> returns before it stores that sample: the fifth bit of the run is the one
  that is dropped, the bit counter and the buffer are as before. The next sample of
  opposite polarity, the stuff bit, is then stored in the buffer.
\<close>

theorem destuffing_drops_the_fifth_bit:
  assumes "state n \<noteq> CAN_STATE_BUS_OFF" and "rxState n = RX_STATE_FRAME"
      and "consecutiveBits n = 4" and "lastBit n = b"
      and "0 \<le> rxBitCount n" and "rxBitCount n < 128"
  shows "\<exists>n1 n2.
           readFrame n frame (lastSampleTime n + word_of_int (bitTimeUs n)) b g
             = Inr (CAN_READ_NO_MSG, n1, frame, g)
         \<and> rxBitCount n1 = rxBitCount n \<and> rxBuffer n1 = rxBuffer n
         \<and> readFrame n1 frame (lastSampleTime n1 + word_of_int (bitTimeUs n1)) (\<not> b) g
             = Inr (CAN_READ_NO_MSG, n2, frame, g)
         \<and> rxBitCount n2 = rxBitCount n + 1
         \<and> rxBuffer n2 = (rxBuffer n)(nat (rxBitCount n) := (\<not> b))"
  using assms
  by (simp add: readFrame_def rxFrameBit_def Let_def)

text \<open>
  After SOF and five recessive samples followed by a dominant stuff bit, the buffer
  holds four recessive bits and the stuff bit, where the claim has five recessive bits.
\<close>

theorem destuffing_drops_the_fifth_bit_witness:
  "pollSamples node125k frame000 gpio125k [False, True, True, True, True]
     = Inr (replicate 5 CAN_READ_NO_MSG, midRun, frame000, gpio125k)
   \<and> (\<exists>n1 n2.
          readFrame midRun frame000 48 True gpio125k = Inr (CAN_READ_NO_MSG, n1, frame000, gpio125k)
        \<and> rxBitCount n1 = 4
        \<and> readFrame n1 frame000 (lastSampleTime n1 + word_of_int (bitTimeUs n1)) False gpio125k
            = Inr (CAN_READ_NO_MSG, n2, frame000, gpio125k)
        \<and> rxBitCount n2 = 5
        \<and> map (rxBuffer n2) [0, 1, 2, 3, 4] = [True, True, True, True, False])"
proof -
  from destuffing_drops_the_fifth_bit[OF midRun_fields(1-6), of frame000 gpio125k]
  obtain n1 n2 where
    a: "readFrame midRun frame000 (lastSampleTime midRun + word_of_int (bitTimeUs midRun)) True gpio125k
          = Inr (CAN_READ_NO_MSG, n1, frame000, gpio125k)"
    and b: "rxBitCount n1 = rxBitCount midRun"
    and c: "readFrame n1 frame000 (lastSampleTime n1 + word_of_int (bitTimeUs n1)) (\<not> True) gpio125k
          = Inr (CAN_READ_NO_MSG, n2, frame000, gpio125k)"
    and d: "rxBitCount n2 = rxBitCount midRun + 1"
    and e: "rxBuffer n2 = (rxBuffer midRun)(nat (rxBitCount midRun) := (\<not> True))"
    by blast
  have a': "readFrame midRun frame000 48 True gpio125k = Inr (CAN_READ_NO_MSG, n1, frame000, gpio125k)"
    using a by (simp add: midRun_fields)
  have e': "map (rxBuffer n2) [0, 1, 2, 3, 4] = [True, True, True, True, False]"
    by (simp add: e midRun_fields)
  from poll_to_midRun a' b c d e' show ?thesis
    by (auto simp: midRun_fields)
qed

text \<open>
  Claim C1. The round trip never succeeds. Whatever frame a sender transmits, however
  the bus answered the sender, and whatever follows on the line, a receiver fresh from
  the constructor and \<open>begin\<close> that samples the sender's bits once per bit period
  returns \<open>CAN_READ_NO_MSG\<close> at every sample and leaves the caller's frame alone: the
  run counter is reset when it reaches five, so the test for seven recessive bits that
  ends a frame never holds. The bound of 128 samples keeps the run inside the buffer; no
  call of \<open>sendFrame\<close> takes more than 127 bit periods (\<open>txTrace_length\<close>).
\<close>

theorem loopback_never_delivers:
  assumes fresh: "ESP_CAN_begin (ESP_CAN_ctor rp tp raw) baudrate now g0 = Inr (n, g)"
      and short: "length (txTrace sender frame rx gs @ tail) \<le> 128"
  shows "\<exists>n'. pollSamples n out g (txTrace sender frame rx gs @ tail)
           = Inr (replicate (length (txTrace sender frame rx gs @ tail)) CAN_READ_NO_MSG, n', out, g)"
proof -
  let ?samples = "txTrace sender frame rx gs @ tail"
  have inv: "rxInv n" and idle: "rxState n = RX_STATE_IDLE"
    using begin_fresh[OF fresh] by simp_all
  from pollSamples_returns[OF inv short, of out g] idle
  obtain sts n' out' g' where r: "pollSamples n out g ?samples = Inr (sts, n', out', g')"
    by (metis prod_cases4)
  from pollSamples_quiet[OF inv r] r show ?thesis by auto
qed

text \<open>
  The frame of the sender sketch (identifier 0x123, four data bytes), sent on a bus
  where another node acknowledges, so that \<open>sendFrame\<close> returns true and the line
  carries the whole frame through ACK delimiter and EOF: 78 samples, 78 times
  \<open>CAN_READ_NO_MSG\<close>.
\<close>

theorem loopback_never_delivers_witness:
  "ESP_CAN_begin (ESP_CAN_ctor 5 4 raw0) 125000 0 gpio0 = Inr (node125k, gpio125k)
   \<and> fst (sendFrame node125k frame123 ackedBus gpio125k) = True
   \<and> length (txTrace node125k frame123 ackedBus gpio125k @ []) = 78
   \<and> (\<exists>n'. pollSamples node125k frame000 gpio125k
               (txTrace node125k frame123 ackedBus gpio125k @ [])
             = Inr (replicate 78 CAN_READ_NO_MSG, n', frame000, gpio125k))"
proof -
  have len: "length (txTrace node125k frame123 ackedBus gpio125k @ []) = 78"
    by (simp add: acked_frame123(3) length_trace123)
  then have short: "length (txTrace node125k frame123 ackedBus gpio125k @ []) \<le> 128"
    by simp
  from loopback_never_delivers[OF begin_125k short, of frame000] len begin_125k acked_frame123(1)
  show ?thesis by simp
qed

text \<open>
  Claim C7. The receiver never drives its ACK bit, neither in the ACK slot nor later.
  The code that drives TX dominant sits behind the test for seven recessive samples,
  which would come after the ACK slot and which never holds (see C1): over any samples
  at all, the polls of a fresh receiver spend no bit period, leave the TX latch and the
  pin directions as they were, and never return \<open>CAN_READ_MSG_OK\<close>.
\<close>

theorem receiver_never_acknowledges:
  assumes fresh: "ESP_CAN_begin (ESP_CAN_ctor rp tp raw) baudrate now g0 = Inr (n, g)"
      and run: "pollSamples n out g samples = Inr (sts, n', out', g')"
  shows "wire g' = wire g \<and> level g' = level g \<and> mode g' = mode g
         \<and> CAN_READ_MSG_OK \<notin> set sts"
proof -
  have inv: "rxInv n" using begin_fresh[OF fresh] by simp
  from pollSamples_quiet[OF inv run] show ?thesis by auto
qed

text \<open>
  The frame of the sender sketch, whose CRC field is right, then ACK delimiter and EOF:
  the receiver's trace stays empty and its TX latch recessive.
\<close>

theorem receiver_never_acknowledges_witness:
  "\<exists>sts n' out' g'.
      ESP_CAN_begin (ESP_CAN_ctor 5 4 raw0) 125000 0 gpio0 = Inr (node125k, gpio125k)
    \<and> pollSamples node125k frame000 gpio125k (trace123 @ replicate 8 True) = Inr (sts, n', out', g')
    \<and> wire g' = [] \<and> level g' 4 = True \<and> CAN_READ_MSG_OK \<notin> set sts"
proof -
  have inv: "rxInv node125k" by (simp add: rxInv_def node125k_fields)
  have short: "length (trace123 @ replicate 8 True) \<le> 128" by (simp add: length_trace123)
  from pollSamples_returns[OF inv short, of frame000 gpio125k]
  obtain sts n' out' g' where
    r: "pollSamples node125k frame000 gpio125k (trace123 @ replicate 8 True) = Inr (sts, n', out', g')"
    by (auto simp: node125k_fields)
  from receiver_never_acknowledges[OF begin_125k r] r begin_125k show ?thesis
    by (auto simp: gpio125k_fields)
qed



section \<open>Bit stuffing on the wire\<close>

text \<open>
  Claim C4. The transmitter starts its run counter at 0 after SOF and again at 0 after
  each stuff bit, so neither is counted. For every frame whose identifier is below
  0x040, whatever the bus does and whether or not the call succeeds, SOF and the first
  five identifier bits are six dominant bits in a row, and only then comes a stuff bit:
  the claim wants the stuff bit after the fifth. The frame with identifier 0 is sent
  successfully that way.
\<close>

theorem six_dominant_bits_on_the_wire:
  assumes act: "state n \<noteq> CAN_STATE_BUS_OFF" and out: "mode g (txPin n) = OUTPUT"
      and low: "id_f frame < 0x40"
  shows "take 7 (txTrace n frame rx g) = [False, False, False, False, False, False, True]"
proof -
  obtain rest where bs: "bitSequence frame = False # False # False # False # False # rest"
    using bitSequence_low_id[OF low] by blast
  define g0 where "g0 = snd (sendBit n rx False False g)"
  have w0: "wire g0 = wire g @ [False]" and m0: "mode g0 (txPin n) = OUTPUT"
    using out by (simp_all add: g0_def sendBit_active[OF act] delayBitTime_def digitalWrite_def)
  obtain e1 where w1: "wire (snd (sendStuffed n rx True (bitSequence frame) 0 False g0))
       = wire g0 @ [False, False, False, False, False, True] @ e1"
    using sendStuffed_five_dominant[OF act m0] bs by metis
  obtain e2 where "wire (snd (snd (sendFrame n frame rx g)))
       = wire (snd (sendStuffed n rx True (bitSequence frame) 0 False g0)) @ e2"
    using wire_sendFrame_ext[OF act] g0_def by blast
  then show ?thesis
    by (simp add: txTrace_def w1 w0)
qed

theorem six_dominant_bits_on_the_wire_witness:
  "state node125k \<noteq> CAN_STATE_BUS_OFF \<and> mode gpio125k (txPin node125k) = OUTPUT
   \<and> id_f frame000 < 0x40
   \<and> fst (sendFrame node125k frame000 ackedBus000 gpio125k) = True
   \<and> take 7 (txTrace node125k frame000 ackedBus000 gpio125k)
       = [False, False, False, False, False, False, True]"
proof -
  have m: "mode gpio125k (txPin node125k) = OUTPUT"
    by (simp add: node125k_fields gpio125k_fields)
  have low: "id_f frame000 < 0x40"
    by (simp add: frame000_def)
  have t: "take 7 (txTrace node125k frame000 ackedBus000 gpio125k)
       = [False, False, False, False, False, False, True]"
    by (rule six_dominant_bits_on_the_wire[OF node125k_active m low])
  from node125k_active m low acked_frame000 t show ?thesis by blast
qed

end
